theory Spec2Isabelle
  imports Complex_Main
begin

section \<open>Regular-grid resampling (NB1\_Process\_grids.py)\<close>

text \<open>
  The development embeds the class \<open>RegularGridResampler\<close> and the function
  \<open>interpolate_flux_arrays\<close> of \<^verbatim>\<open>NB1_Process_grids.py\<close>. Python floats are
  idealised as real numbers (exact arithmetic, no NaN and no infinities); Python integers
  are \<open>int\<close>; lengths and shapes are \<open>nat\<close>. A raised exception is the left
  summand of the result type.
\<close>

subsection \<open>Exceptions\<close>

datatype error = ValueError string | IndexError | KeyError | AssertionError

subsection \<open>The numpy operations the code calls\<close>

text \<open>
  numpy is not part of the repository; the operations below follow its documented
  behaviour on one-dimensional arrays, which are lists here.
\<close>

text \<open>\<open>np.diff(p)\<close>: \<open>p[1:] - p[:-1]\<close>.\<close>

definition np_diff :: "real list \<Rightarrow> real list" where
  "np_diff p = map (\<lambda>(b, a). b - a) (zip (tl p) p)"

text \<open>
  \<open>np.linspace(start, stop, num)\<close> with the default \<open>endpoint=True\<close>:
  \<open>arange(num) * step + start\<close> with \<open>step = (stop - start) / (num - 1)\<close>, and the last
  sample overwritten with \<open>stop\<close> when \<open>num > 1\<close>.
\<close>

definition np_linspace :: "real \<Rightarrow> real \<Rightarrow> nat \<Rightarrow> real list" where
  "np_linspace start stop num =
     (let step = (stop - start) / real (num - 1);
          y = map (\<lambda>k. real k * step + start) [0..<num]
      in if 1 < num then y[num - 1 := stop] else y)"

text \<open>
  \<open>np.searchsorted(a, v)\<close> with the default \<open>side='left'\<close>, for one value \<open>v\<close> and an
  ascending array \<open>a\<close>: the first index \<open>i\<close> with \<open>v \<le> a[i]\<close> (so that
  \<open>a[i-1] < v \<le> a[i]\<close>), \<open>len(a)\<close> when there is none.
\<close>

definition np_searchsorted :: "real list \<Rightarrow> real \<Rightarrow> nat" where
  "np_searchsorted a v = length (takeWhile (\<lambda>x. x < v) a)"

text \<open>\<open>np.clip(x, lo, hi)\<close> is \<open>minimum(maximum(x, lo), hi)\<close>.\<close>

definition np_clip :: "int \<Rightarrow> int \<Rightarrow> int \<Rightarrow> int" where
  "np_clip x lo hi = min (max x lo) hi"

text \<open>
  One integer index into an axis of length \<open>n\<close>: a negative index counts from the end,
  and an index outside \<open>[-n, n)\<close> raises IndexError.
\<close>

definition np_index :: "nat \<Rightarrow> int \<Rightarrow> error + nat" where
  "np_index n i =
     (if 0 \<le> i \<and> i < int n then Inr (nat i)
      else if - int n \<le> i \<and> i < 0 then Inr (nat (i + int n))
      else Inl IndexError)"

text \<open>A loop whose body can raise: the first exception ends it.\<close>

fun mapE :: "('a \<Rightarrow> error + 'b) \<Rightarrow> 'a list \<Rightarrow> error + 'b list" where
  "mapE f [] = Inr []"
| "mapE f (x # xs) =
     (case f x of
        Inl e \<Rightarrow> Inl e
      | Inr y \<Rightarrow> (case mapE f xs of Inl e \<Rightarrow> Inl e | Inr ys \<Rightarrow> Inr (y # ys)))"

text \<open>Fancy indexing of a one-dimensional array with an integer array: \<open>a[i_vec]\<close>.\<close>

definition np_take :: "'a list \<Rightarrow> int list \<Rightarrow> error + 'a list" where
  "np_take a i_vec =
     mapE (\<lambda>i. case np_index (length a) i of Inl e \<Rightarrow> Inl e | Inr k \<Rightarrow> Inr (a ! k)) i_vec"

subsection \<open>N-dimensional arrays\<close>

text \<open>
  An \<open>ndarray\<close> of floats is its shape and its elements in row-major (C) order, the
  layout of every array the code creates.
\<close>

record ndarray =
  shape :: "nat list"
  data :: "real list"

definition ndarray_ok :: "ndarray \<Rightarrow> bool" where
  "ndarray_ok a = (length (data a) = prod_list (shape a))"

text \<open>The flat position of a multi-index in row-major order.\<close>

fun ravel_multi_index :: "nat list \<Rightarrow> nat list \<Rightarrow> nat" where
  "ravel_multi_index (n # ns) (i # is) = i * prod_list ns + ravel_multi_index ns is"
| "ravel_multi_index _ _ = 0"

text \<open>
  One element \<open>a[i_0, ..., i_{d-1}]\<close>, each index checked against its axis as numpy
  does. The model covers index tuples with as many entries as the array has axes, the
  only ones \<open>__call__\<close> builds after its shape test; any other tuple is given as
  IndexError (numpy raises it for too many indices, and returns a sub-array for too few).
\<close>

definition nd_item :: "ndarray \<Rightarrow> int list \<Rightarrow> error + real" where
  "nd_item a idx =
     (if length idx \<noteq> length (shape a) then Inl IndexError
      else case mapE (\<lambda>(n, i). np_index n i) (zip (shape a) idx) of
        Inl e \<Rightarrow> Inl e
      | Inr ks \<Rightarrow> Inr (data a ! ravel_multi_index (shape a) ks))"

text \<open>
  Fancy indexing \<open>a[inds]\<close> where \<open>inds\<close> is a tuple of \<open>a.ndim\<close> integer arrays of one
  common length: the result is one-dimensional, its \<open>t\<close>-th element being
  \<open>a[inds[0][t], ..., inds[d-1][t]]\<close>.
\<close>

definition nd_fancy :: "ndarray \<Rightarrow> int list list \<Rightarrow> error + real list" where
  "nd_fancy a inds =
     mapE (\<lambda>t. nd_item a (map (\<lambda>col. col ! t) inds)) [0..<length (hd inds)]"

text \<open>
  Elementwise arithmetic on two one-dimensional arrays of one common length; numpy
  raises ValueError when the shapes cannot be broadcast together. (numpy also
  broadcasts an array of length 1; the vectors of the resampler all have the length of
  the flattened output grid, so that case is outside the model.)
\<close>

definition np_binop :: "(real \<Rightarrow> real \<Rightarrow> real) \<Rightarrow> real list \<Rightarrow> real list \<Rightarrow> error + real list" where
  "np_binop f xs ys =
     (if length xs = length ys then Inr (map (\<lambda>(x, y). f x y) (zip xs ys))
      else Inl (ValueError ''operands could not be broadcast together''))"

text \<open>\<open>a.reshape(shp)\<close> of a one-dimensional array: the size must not change.\<close>

definition np_reshape :: "real list \<Rightarrow> nat list \<Rightarrow> error + ndarray" where
  "np_reshape xs shp =
     (if length xs = prod_list shp then Inr \<lparr>shape = shp, data = xs\<rparr>
      else Inl (ValueError ''cannot reshape array''))"

text \<open>\<open>np.repeat(a, m)\<close>: every element \<open>m\<close> times in a row.\<close>

definition np_repeat :: "'a list \<Rightarrow> nat \<Rightarrow> 'a list" where
  "np_repeat a m = concat (map (replicate m) a)"

subsection \<open>The cartesian product helper\<close>

text \<open>
  \<open>_cartesian_prod(arrays)\<close>: \<open>arrays[0]\<close> raises IndexError on an empty list. Column 0
  of the result is \<open>np.repeat(arrays[0], m)\<close>; the recursive call fills the other
  columns of the first \<open>m\<close> rows, and the loop copies that block to each of the further
  \<open>arrays[0].size - 1\<close> blocks of \<open>m\<close> rows. The result is the list of its rows.
  Both call sites pass arrays with at least two elements each; what numpy does with an
  empty array among them (an integer division by zero that warns, then assignments to
  empty slices) is outside the model.
\<close>

fun cartesian_prod :: "'a list list \<Rightarrow> error + 'a list list" where
  "cartesian_prod [] = Inl IndexError"
| "cartesian_prod (a # rest) =
     (let n = prod_list (map length (a # rest));
          m = n div length a;
          col0 = np_repeat a m
      in if rest = [] then Inr (map (\<lambda>x. [x]) col0)
         else case cartesian_prod rest of
                Inl e \<Rightarrow> Inl e
              | Inr block \<Rightarrow>
                  Inr (map (\<lambda>(x, row). x # row) (zip col0 (concat (replicate (length a) block)))))"

text \<open>
  \<open>itertools.product(*[[0,1] for _ in range(ndim)])\<close>: the \<open>2^ndim\<close> edge keys, the
  last position varying fastest.
\<close>

definition edge_keys :: "nat \<Rightarrow> nat list list" where
  "edge_keys nd = product_lists (replicate nd [0, 1])"

subsection \<open>RegularGridResampler\<close>

text \<open>
  The attributes of an instance. The two dictionaries are association lists in insertion
  order, the order in which \<open>items()\<close> iterates.
\<close>

record resampler =
  in_points :: "real list list"
  in_shape :: "nat list"
  ndim :: nat
  out_shape :: "int list"
  out_points :: "real list list"
  lower_edge_inds :: "int list list"
  norm_distances :: "real list list"
  weights :: "(nat list \<times> real list) list"
  fancy_inds_all :: "(nat list \<times> int list list) list"

text \<open>
  The body of the loop over the dimensions in \<open>__init__\<close>: the lower edge index and the
  normalised distance of every output coordinate of one axis. The two fancy indexings
  raise IndexError for an index out of range. Every cell width is positive once the
  validation has passed, so the division is never by zero (numpy would warn and give an
  infinity or a NaN, it would not raise).
\<close>

definition axis_precompute :: "real list \<Rightarrow> real list \<Rightarrow> error + (int list \<times> real list)" where
  "axis_precompute p_out p_in =
     (let i_vec = map (\<lambda>v. int (np_searchsorted p_in v) - 1) p_out;
          i_vec = map (\<lambda>i. np_clip i 0 (int (length p_in) - 2)) i_vec;
          p_in_diff = np_diff p_in
      in case np_take p_in i_vec of
           Inl e \<Rightarrow> Inl e
         | Inr lower \<Rightarrow>
             (case np_take p_in_diff i_vec of
                Inl e \<Rightarrow> Inl e
              | Inr width \<Rightarrow>
                  Inr (i_vec, map (\<lambda>((v, l), w). (v - l) / w) (zip (zip p_out lower) width))))"

text \<open>
  \<open>_find_weights\<close>: the weight vector of every edge key, one entry per output point.
  \<open>weights_all_l_u[j][:,k]\<close> is column \<open>k\<close> of \<open>lower_all\<close> (\<open>j = 0\<close>) or of
  \<open>upper_all\<close> (\<open>j = 1\<close>).
\<close>

definition find_weights :: "real list list \<Rightarrow> nat \<Rightarrow> error + (nat list \<times> real list) list" where
  "find_weights weights_upper nd =
     (case cartesian_prod weights_upper of
        Inl e \<Rightarrow> Inl e
      | Inr upper_all \<Rightarrow>
          (let lower_all = map (map (\<lambda>u. 1 - u)) upper_all;
               weights_all_l_u = [lower_all, upper_all]
           in Inr (map (\<lambda>all_j.
                     (all_j,
                      fold (\<lambda>(k, j) combined_weights.
                              map (\<lambda>(c, w). c * w)
                                (zip combined_weights (map (\<lambda>row. row ! k) (weights_all_l_u ! j))))
                        (enumerate 0 all_j) (replicate (length upper_all) 1)))
                   (edge_keys nd))))"

text \<open>
  \<open>__init__\<close>. The points arrays are one-dimensional by their type, so the first test of
  the validation loop cannot fail. \<open>p[0]\<close> raises IndexError on an empty array.
\<close>

definition resampler_init :: "real list list \<Rightarrow> int list \<Rightarrow> error + resampler" where
  "resampler_init inp outs =
     (if list_ex (\<lambda>p. list_ex (\<lambda>d. d \<le> 0) (np_diff p)) inp
        then Inl (ValueError ''Points arrays must be strictly ascending'')
      else if length outs \<noteq> length inp
        then Inl (ValueError ''The output array must have the same number of dimensions as the input array'')
      else if list_ex (\<lambda>n_p. n_p < 2) outs
        then Inl (ValueError ''Each output dimension needs at least 2 points'')
      else case mapE (\<lambda>(p, n_p). if p = [] then Inl IndexError
                                  else Inr (np_linspace (hd p) (last p) (nat n_p)))
                  (zip inp outs) of
        Inl e \<Rightarrow> Inl e
      | Inr outp \<Rightarrow>
          (case mapE (\<lambda>(p_out, p_in). axis_precompute p_out p_in) (zip outp inp) of
             Inl e \<Rightarrow> Inl e
           | Inr pre \<Rightarrow>
               (case find_weights (map snd pre) (length inp) of
                  Inl e \<Rightarrow> Inl e
                | Inr ws \<Rightarrow>
                    (case cartesian_prod (map fst pre) of
                       Inl e \<Rightarrow> Inl e
                     | Inr prod_arr \<Rightarrow>
                         (let fancy_inds_lower =
                                map (\<lambda>i. map (\<lambda>row. row ! i) prod_arr) [0..<length inp]
                          in Inr \<lparr>in_points = inp,
                                  in_shape = map length inp,
                                  ndim = length inp,
                                  out_shape = outs,
                                  out_points = outp,
                                  lower_edge_inds = map fst pre,
                                  norm_distances = map snd pre,
                                  weights = ws,
                                  fancy_inds_all =
                                    map (\<lambda>all_j.
                                          (all_j, map (\<lambda>(j, a). map (\<lambda>x. x + int j) a)
                                                    (zip all_j fancy_inds_lower)))
                                      (edge_keys (length inp))\<rparr>)))))"

text \<open>
  The loop of \<open>__call__\<close> over \<open>self.weights.items()\<close>:
  \<open>out_values += in_grid_values[edge_fancy_inds] * edge_weights\<close>.
\<close>

fun add_edges :: "resampler \<Rightarrow> ndarray \<Rightarrow> (nat list \<times> real list) list \<Rightarrow> real list \<Rightarrow> error + real list" where
  "add_edges r g [] out_values = Inr out_values"
| "add_edges r g ((all_j, edge_weights) # rest) out_values =
     (case map_of (fancy_inds_all r) all_j of
        None \<Rightarrow> Inl KeyError
      | Some edge_fancy_inds \<Rightarrow>
          (case nd_fancy g edge_fancy_inds of
             Inl e \<Rightarrow> Inl e
           | Inr vals \<Rightarrow>
               (case np_binop (*) vals edge_weights of
                  Inl e \<Rightarrow> Inl e
                | Inr contrib \<Rightarrow>
                    (case np_binop (+) out_values contrib of
                       Inl e \<Rightarrow> Inl e
                     | Inr out_values' \<Rightarrow> add_edges r g rest out_values'))))"

text \<open>\<open>__call__\<close>: the output coordinate arrays and the resampled grid.\<close>

definition resampler_call :: "resampler \<Rightarrow> ndarray \<Rightarrow> error + (real list list \<times> ndarray)" where
  "resampler_call r in_grid_values =
     (if shape in_grid_values \<noteq> in_shape r
        then Inl (ValueError ''Shape of grid array doesn't match shape of this RegularGridResampler'')
      else case add_edges r in_grid_values (weights r)
                  (replicate (nat (prod_list (out_shape r))) 0) of
        Inl e \<Rightarrow> Inl e
      | Inr out_values \<Rightarrow>
          (case np_reshape out_values (map nat (out_shape r)) of
             Inl e \<Rightarrow> Inl e
           | Inr out_grid_values \<Rightarrow> Inr (out_points r, out_grid_values)))"

subsection \<open>interpolate\_flux\_arrays and the grid description it fills\<close>








subsection \<open>Notions used in the statements\<close>

text \<open>Construction followed by one call.\<close>

definition resample :: "real list list \<Rightarrow> int list \<Rightarrow> ndarray \<Rightarrow> error + (real list list \<times> ndarray)" where
  "resample inp outs g =
     (case resampler_init inp outs of Inl e \<Rightarrow> Inl e | Inr r \<Rightarrow> resampler_call r g)"

text \<open>
  A configuration with at least one axis, every axis strictly ascending with at least two
  points, and one output length of at least 2 per axis.
\<close>

definition valid_config :: "real list list \<Rightarrow> int list \<Rightarrow> bool" where
  "valid_config inp outs =
     (inp \<noteq> [] \<and> length outs = length inp \<and>
      list_all (\<lambda>p. 2 \<le> length p \<and> sorted_wrt (<) p) inp \<and> list_all (\<lambda>n. 2 \<le> n) outs)"

text \<open>
  What the loop body of \<open>__init__\<close> stores for one output coordinate \<open>v\<close> of an axis
  \<open>p\<close>: the clipped index, and the distance from that axis point in units of the cell
  width.
\<close>

definition lower_edge :: "real list \<Rightarrow> real \<Rightarrow> int" where
  "lower_edge p v = np_clip (int (np_searchsorted p v) - 1) 0 (int (length p) - 2)"

definition norm_distance :: "real list \<Rightarrow> real \<Rightarrow> real" where
  "norm_distance p v = (let j = nat (lower_edge p v) in (v - p ! j) / (p ! Suc j - p ! j))"

text \<open>
  The weight of the edge \<open>all_j\<close> at an output point whose normalised distances are
  \<open>row\<close>, and the multi-index of that edge when the lower edge is at \<open>row\<close>.
\<close>

definition edge_weight :: "nat list \<Rightarrow> real list \<Rightarrow> real" where
  "edge_weight all_j row = prod_list (map (\<lambda>(j, u). [1 - u, u] ! j) (zip all_j row))"

definition edge_index :: "nat list \<Rightarrow> int list \<Rightarrow> int list" where
  "edge_index all_j row = map (\<lambda>(j, x). x + int j) (zip all_j row)"

text \<open>
  The value of \<open>g\<close> at the edge \<open>all_j\<close> of the cell whose lower corner has the
  multi-index \<open>row\<close>.
\<close>

definition corner_value :: "ndarray \<Rightarrow> nat list \<Rightarrow> int list \<Rightarrow> real" where
  "corner_value g all_j row = data g ! ravel_multi_index (shape g) (map nat (edge_index all_j row))"

text \<open>
  The tables that \<open>__init__\<close> computes, written as functions of its arguments: the output
  coordinates, the lower edge indices and the normalised distances of every axis, and the
  whole instance.
\<close>

definition out_axes :: "real list list \<Rightarrow> int list \<Rightarrow> real list list" where
  "out_axes inp outs = map (\<lambda>(p, n_p). np_linspace (hd p) (last p) (nat n_p)) (zip inp outs)"

definition lower_axes :: "real list list \<Rightarrow> int list \<Rightarrow> int list list" where
  "lower_axes inp outs =
     map (\<lambda>(p_out, p_in). map (lower_edge p_in) p_out) (zip (out_axes inp outs) inp)"

definition upper_axes :: "real list list \<Rightarrow> int list \<Rightarrow> real list list" where
  "upper_axes inp outs =
     map (\<lambda>(p_out, p_in). map (norm_distance p_in) p_out) (zip (out_axes inp outs) inp)"

definition built :: "real list list \<Rightarrow> int list \<Rightarrow> resampler" where
  "built inp outs =
     \<lparr>in_points = inp,
      in_shape = map length inp,
      ndim = length inp,
      out_shape = outs,
      out_points = out_axes inp outs,
      lower_edge_inds = lower_axes inp outs,
      norm_distances = upper_axes inp outs,
      weights = map (\<lambda>all_j. (all_j, map (edge_weight all_j) (product_lists (upper_axes inp outs))))
                  (edge_keys (length inp)),
      fancy_inds_all =
        map (\<lambda>all_j. (all_j, map (\<lambda>(j, a). map (\<lambda>x. x + int j) a)
                                (zip all_j (map (\<lambda>i. map (\<lambda>row. row ! i)
                                                       (product_lists (lower_axes inp outs)))
                                              [0..<length inp]))))
          (edge_keys (length inp))\<rparr>"

text \<open>
  The value that the stored gather indices of the edge \<open>all_j\<close> pick from the grid \<open>g\<close>
  for the output point at flat position \<open>t\<close>.
\<close>

definition gathered :: "resampler \<Rightarrow> ndarray \<Rightarrow> nat list \<Rightarrow> nat \<Rightarrow> real" where
  "gathered r g all_j t =
     (case map_of (fancy_inds_all r) all_j of
        None \<Rightarrow> 0
      | Some inds \<Rightarrow> data g ! ravel_multi_index (shape g) (map (\<lambda>col. nat (col ! t)) inds))"

text \<open>The multilinear interpolant of \<open>g\<close> at the output point with coordinates \<open>vs\<close>.\<close>

definition interp_point :: "real list list \<Rightarrow> ndarray \<Rightarrow> real list \<Rightarrow> real" where
  "interp_point inp g vs =
     (\<Sum>all_j \<leftarrow> edge_keys (length inp).
        corner_value g all_j (map (\<lambda>(p, v). lower_edge p v) (zip inp vs))
        * edge_weight all_j (map (\<lambda>(p, v). norm_distance p v) (zip inp vs)))"

text \<open>
  \<open>j\<close> is the largest index of the axis \<open>p\<close> whose point is at most \<open>v\<close> (the wording
  of the specification), and the largest index whose point is strictly below \<open>v\<close>.
\<close>

definition largest_index_le :: "real list \<Rightarrow> real \<Rightarrow> nat \<Rightarrow> bool" where
  "largest_index_le p v j = (j < length p \<and> p ! j \<le> v \<and> (\<forall>k < length p. p ! k \<le> v \<longrightarrow> k \<le> j))"

definition largest_index_lt :: "real list \<Rightarrow> real \<Rightarrow> nat \<Rightarrow> bool" where
  "largest_index_lt p v j = (j < length p \<and> p ! j < v \<and> (\<forall>k < length p. p ! k < v \<longrightarrow> k \<le> j))"

text \<open>
  For the output point at the multi-index \<open>pos\<close>: its coordinates, the stored lower edge
  index of every axis (the lower corner of its cell), and the stored normalised distances.
\<close>

definition point_at :: "resampler \<Rightarrow> nat list \<Rightarrow> real list" where
  "point_at r pos = map (\<lambda>i. out_points r ! i ! (pos ! i)) [0..<ndim r]"

definition cell_lower :: "resampler \<Rightarrow> nat list \<Rightarrow> int list" where
  "cell_lower r pos = map (\<lambda>i. lower_edge_inds r ! i ! (pos ! i)) [0..<ndim r]"

definition cell_dist :: "resampler \<Rightarrow> nat list \<Rightarrow> real list" where
  "cell_dist r pos = map (\<lambda>i. norm_distances r ! i ! (pos ! i)) [0..<ndim r]"

subsection \<open>Concrete instances\<close>

text \<open>The instance that \<open>__init__\<close> builds for the axis \<open>[0, 10, 20]\<close> and 5 output points.\<close>

definition resampler_1d :: resampler where
  "resampler_1d =
     \<lparr>in_points = [[0, 10, 20]], in_shape = [3], ndim = 1, out_shape = [5],
      out_points = [[0, 5, 10, 15, 20]],
      lower_edge_inds = [[0, 0, 0, 1, 1]],
      norm_distances = [[0, 1 / 2, 1, 1 / 2, 1]],
      weights = [([0], [1, 1 / 2, 0, 1 / 2, 0]), ([1], [0, 1 / 2, 1, 1 / 2, 1])],
      fancy_inds_all = [([0], [[0, 0, 0, 1, 1]]), ([1], [[1, 1, 1, 2, 2]])]\<rparr>"

text \<open>The instance for the axis \<open>[0, 10, 20]\<close> and 3 output points, the input points themselves.\<close>

definition resampler_same :: resampler where
  "resampler_same =
     \<lparr>in_points = [[0, 10, 20]], in_shape = [3], ndim = 1, out_shape = [3],
      out_points = [[0, 10, 20]],
      lower_edge_inds = [[0, 0, 1]],
      norm_distances = [[0, 1, 1]],
      weights = [([0], [1, 0, 0]), ([1], [0, 1, 1])],
      fancy_inds_all = [([0], [[0, 0, 1]]), ([1], [[1, 1, 2]])]\<rparr>"



section \<open>Auxiliary facts\<close>

subsection \<open>Loops that can raise\<close>

lemma mapE_map: "(\<And>x. x \<in> set xs \<Longrightarrow> f x = Inr (g x)) \<Longrightarrow> mapE f xs = Inr (map g xs)"
  by (induction xs) auto


lemma mapE_Inl: "x \<in> set xs \<Longrightarrow> \<forall>y. f x \<noteq> Inr y \<Longrightarrow> \<forall>ys. mapE f xs \<noteq> Inr ys"
  by (induction xs) (auto split: sum.splits)

lemma mapE_Inl_only:
  "(\<And>x e. f x = Inl e \<Longrightarrow> e = E) \<Longrightarrow> mapE f xs = Inl e \<Longrightarrow> e = E"
  by (induction xs) (auto split: sum.splits)

subsection \<open>The cartesian product and row-major order\<close>

lemma zip_repeat_block:
  "length block = m \<Longrightarrow>
   map (\<lambda>(x, row). x # row) (zip (np_repeat a m) (concat (replicate (length a) block)))
   = concat (map (\<lambda>x. map ((#) x) block) a)"
proof (induction a)
  case Nil
  then show ?case by (simp add: np_repeat_def)
next
  case (Cons x a)
  have "map (\<lambda>(x, row). x # row) (zip (replicate m x) block) = map ((#) x) block"
    using Cons.prems by (simp add: zip_replicate1 map_zip_map2 zip_same_conv_map list_eq_iff_nth_eq)
  with Cons show ?case
    by (simp add: np_repeat_def zip_append)
qed

lemma length_product_lists': "length (product_lists xss) = prod_list (map length xss)"
  by (induction xss) (auto simp: length_concat o_def sum_list_triv)

lemma cartesian_prod_product_lists:
  "arrays \<noteq> [] \<Longrightarrow> cartesian_prod arrays = Inr (product_lists arrays)"
proof (induction arrays)
  case Nil
  then show ?case by simp
next
  case (Cons a rest)
  show ?case
  proof (cases "rest = []")
    case True
    have "concat (map (replicate (Suc 0)) a) = a" by (induction a) auto
    with True show ?thesis by (cases "a = []") (simp_all add: np_repeat_def)
  next
    case False
    with Cons.IH have ih: "cartesian_prod rest = Inr (product_lists rest)" by simp
    show ?thesis
    proof (cases "a = []")
      case True
      with False ih show ?thesis by (simp add: np_repeat_def)
    next
      case ne: False
      have "prod_list (map length (a # rest)) div length a = length (product_lists rest)"
        using ne by (simp add: length_product_lists')
      with False ih zip_repeat_block[of "product_lists rest" "length (product_lists rest)" a]
      show ?thesis by (simp add: Let_def)
    qed
  qed
qed

lemma nth_concat_blocks:
  "(\<And>x. x \<in> set xs \<Longrightarrow> length (f x) = M) \<Longrightarrow> i < length xs \<Longrightarrow> r < M \<Longrightarrow>
   concat (map f xs) ! (i * M + r) = f (xs ! i) ! r"
proof (induction xs arbitrary: i)
  case Nil
  then show ?case by simp
next
  case (Cons x xs)
  show ?case
  proof (cases i)
    case 0
    with Cons.prems show ?thesis by (simp add: nth_append)
  next
    case (Suc i')
    with Cons.prems have "concat (map f xs) ! (i' * M + r) = f (xs ! i') ! r"
      by (intro Cons.IH) auto
    with Suc Cons.prems show ?thesis by (simp add: nth_append add.assoc)
  qed
qed

lemma ravel_less:
  "length idx = length ns \<Longrightarrow> (\<And>k. k < length ns \<Longrightarrow> idx ! k < ns ! k) \<Longrightarrow>
   ravel_multi_index ns idx < prod_list ns"
proof (induction ns idx rule: ravel_multi_index.induct)
  case (1 n ns i "is")
  have i: "i < n" using "1.prems"(2)[of 0] by simp
  have r: "ravel_multi_index ns is < prod_list ns"
    using "1.prems"(1) "1.prems"(2)[of "Suc k" for k] by (intro "1.IH") auto
  have "i * prod_list ns + ravel_multi_index ns is < Suc i * prod_list ns"
    using r by simp
  also have "\<dots> \<le> n * prod_list ns"
    using i by (intro mult_le_mono1) simp
  finally show ?case by simp
qed auto

lemma nth_product_lists:
  "length idx = length xss \<Longrightarrow> (\<And>k. k < length xss \<Longrightarrow> idx ! k < length (xss ! k)) \<Longrightarrow>
   product_lists xss ! ravel_multi_index (map length xss) idx = map (\<lambda>(xs, i). xs ! i) (zip xss idx)"
proof (induction xss arbitrary: idx)
  case Nil
  then show ?case by simp
next
  case (Cons xs xss)
  then obtain i "is" where idx: "idx = i # is" by (cases idx) auto
  have i: "i < length xs" using Cons.prems(2)[of 0] idx by simp
  have len: "length is = length xss" using Cons.prems(1) idx by simp
  have rng: "\<And>k. k < length xss \<Longrightarrow> is ! k < length (xss ! k)"
    using Cons.prems(2)[of "Suc k" for k] idx by auto
  have r: "ravel_multi_index (map length xss) is < prod_list (map length xss)"
    using len rng by (intro ravel_less) auto
  have ih: "product_lists xss ! ravel_multi_index (map length xss) is
            = map (\<lambda>(xs, i). xs ! i) (zip xss is)"
    using len rng by (rule Cons.IH)
  have "concat (map (\<lambda>x. map ((#) x) (product_lists xss)) xs)
          ! (i * prod_list (map length xss) + ravel_multi_index (map length xss) is)
        = map ((#) (xs ! i)) (product_lists xss) ! ravel_multi_index (map length xss) is"
    using i r by (intro nth_concat_blocks) (simp_all add: length_product_lists')
  with r ih idx show ?case by (simp add: length_product_lists')
qed

lemma product_lists_map: "product_lists (map (map f) xss) = map (map f) (product_lists xss)"
  by (induction xss) (simp_all add: map_concat o_def)

lemma concat_upt_blocks: "concat (map (\<lambda>i. map (\<lambda>j. i * M + j) [0..<M]) [0..<n]) = [0..<n * M]"
proof (induction n)
  case 0
  then show ?case by simp
next
  case (Suc n)
  have "map (\<lambda>j. n * M + j) [0..<M] = [n * M..<n * M + M]"
    by (simp add: map_add_upt add.commute)
  moreover have "[0..<n * M + M] = [0..<n * M] @ [n * M..<n * M + M]"
    by (metis le_add1 upt_add_eq_append zero_le)
  ultimately show ?case using Suc by (simp add: add.commute)
qed

lemma ravel_product_upt:
  "map (ravel_multi_index ns) (product_lists (map (\<lambda>n. [0..<n]) ns)) = [0..<prod_list ns]"
proof (induction ns)
  case Nil
  then show ?case by simp
next
  case (Cons n ns)
  let ?P = "product_lists (map (\<lambda>n. [0..<n]) ns)"
  let ?M = "prod_list ns"
  have "map (ravel_multi_index (n # ns)) (concat (map (\<lambda>i. map ((#) i) ?P) [0..<n]))
        = concat (map (\<lambda>i. map (\<lambda>j. i * ?M + j) (map (ravel_multi_index ns) ?P)) [0..<n])"
    by (simp add: map_concat o_def)
  also have "\<dots> = [0..<n * ?M]"
    unfolding Cons.IH by (rule concat_upt_blocks)
  finally show ?case by simp
qed

subsection \<open>One axis\<close>

lemma ascending_check:
  "(\<not> list_ex (\<lambda>d. d \<le> 0) (np_diff p)) = sorted_wrt (<) p"
proof (induction p rule: induct_list012)
  case 1
  then show ?case by (simp add: np_diff_def)
next
  case (2 x)
  then show ?case by (simp add: np_diff_def)
next
  case (3 x y zs)
  have "(\<not> list_ex (\<lambda>d. d \<le> 0) (np_diff (x # y # zs)))
        = (x < y \<and> \<not> list_ex (\<lambda>d. d \<le> 0) (np_diff (y # zs)))"
    by (auto simp: np_diff_def)
  also have "\<dots> = (x < y \<and> sorted_wrt (<) (y # zs))" using 3 by simp
  also have "\<dots> = sorted_wrt (<) (x # y # zs)" by auto
  finally show ?case .
qed

lemma length_np_diff: "length (np_diff p) = length p - 1"
  by (simp add: np_diff_def)

lemma nth_np_diff: "Suc j < length p \<Longrightarrow> np_diff p ! j = p ! Suc j - p ! j"
  by (simp add: np_diff_def nth_tl)

lemma length_np_linspace: "length (np_linspace a b n) = n"
  by (simp add: np_linspace_def Let_def)

lemma nth_np_linspace:
  "2 \<le> n \<Longrightarrow> k < n \<Longrightarrow> np_linspace a b n ! k = a + real k * ((b - a) / real (n - 1))"
proof -
  assume n: "2 \<le> n" and k: "k < n"
  have "real (n - 1) * ((b - a) / real (n - 1)) = b - a" using n by simp
  then show ?thesis using n k
    by (auto simp: np_linspace_def Let_def nth_list_update add.commute)
qed

lemma np_linspace_hd: "2 \<le> n \<Longrightarrow> np_linspace a b n ! 0 = a"
  by (simp add: nth_np_linspace)

lemma np_linspace_last: "2 \<le> n \<Longrightarrow> np_linspace a b n ! (n - 1) = b"
  by (simp add: np_linspace_def Let_def)

lemma np_linspace_bounds:
  assumes "2 \<le> n" "k < n" "a \<le> b"
  shows "a \<le> np_linspace a b n ! k" "np_linspace a b n ! k \<le> b"
proof -
  have pos: "0 < real (n - 1)" using assms by simp
  have k: "real k \<le> real (n - 1)" using assms by simp
  have d: "0 \<le> b - a" using assms(3) by simp
  have "0 \<le> real k * ((b - a) / real (n - 1))" using d by simp
  moreover have "real k * ((b - a) / real (n - 1)) \<le> real (n - 1) * ((b - a) / real (n - 1))"
    using k d by (intro mult_right_mono) simp_all
  moreover have "real (n - 1) * ((b - a) / real (n - 1)) = b - a" using pos by simp
  ultimately have "0 \<le> real k * ((b - a) / real (n - 1))" "real k * ((b - a) / real (n - 1)) \<le> b - a"
    by simp_all
  then show "a \<le> np_linspace a b n ! k" "np_linspace a b n ! k \<le> b"
    using assms by (simp_all add: nth_np_linspace)
qed

lemma searchsorted_le: "np_searchsorted a v \<le> length a"
  by (simp add: np_searchsorted_def length_takeWhile_le)

lemma searchsorted_below: "i < np_searchsorted a v \<Longrightarrow> a ! i < v"
  unfolding np_searchsorted_def
  by (metis (mono_tags, lifting) nth_mem set_takeWhileD takeWhile_nth)

lemma searchsorted_at: "np_searchsorted a v < length a \<Longrightarrow> v \<le> a ! np_searchsorted a v"
  unfolding np_searchsorted_def using nth_length_takeWhile[of "\<lambda>x. x < v" a] by simp

lemma searchsorted_above:
  assumes "sorted_wrt (<) a" "np_searchsorted a v \<le> i" "i < length a"
  shows "v \<le> a ! i"
proof -
  have c: "np_searchsorted a v < length a" using assms by simp
  have "a ! np_searchsorted a v \<le> a ! i"
    using assms c by (cases "np_searchsorted a v = i") (auto simp: sorted_wrt_iff_nth_less less_imp_le)
  with searchsorted_at[OF c] show ?thesis by simp
qed

lemma searchsorted_nth:
  assumes "sorted_wrt (<) a" "k < length a"
  shows "np_searchsorted a (a ! k) = k"
proof -
  have "\<not> k < np_searchsorted a (a ! k)" using searchsorted_below[of k a "a ! k"] by auto
  moreover have "\<not> np_searchsorted a (a ! k) < k"
  proof
    assume l: "np_searchsorted a (a ! k) < k"
    then have "a ! k \<le> a ! np_searchsorted a (a ! k)" using assms by (intro searchsorted_at) simp
    moreover have "a ! np_searchsorted a (a ! k) < a ! k"
      using assms l by (simp add: sorted_wrt_iff_nth_less)
    ultimately show False by simp
  qed
  ultimately show ?thesis by simp
qed

lemma lower_edge_range:
  "2 \<le> length p \<Longrightarrow> 0 \<le> lower_edge p v \<and> lower_edge p v \<le> int (length p) - 2"
  by (simp add: lower_edge_def np_clip_def)

lemma np_take_in_range:
  "(\<And>i. i \<in> set i_vec \<Longrightarrow> 0 \<le> i \<and> i < int (length a)) \<Longrightarrow>
   np_take a i_vec = Inr (map (\<lambda>i. a ! nat i) i_vec)"
  unfolding np_take_def by (rule mapE_map) (simp add: np_index_def)

lemma np_take_empty: "i_vec \<noteq> [] \<Longrightarrow> np_take [] i_vec = Inl IndexError"
  by (cases i_vec) (auto simp: np_take_def np_index_def)

lemma axis_precompute_eq:
  assumes "2 \<le> length p"
  shows "axis_precompute p_out p = Inr (map (lower_edge p) p_out, map (norm_distance p) p_out)"
proof -
  let ?iv = "map (lower_edge p) p_out"
  have iv: "map (\<lambda>i. np_clip i 0 (int (length p) - 2)) (map (\<lambda>v. int (np_searchsorted p v) - 1) p_out) = ?iv"
    by (simp add: lower_edge_def)
  have r1: "0 \<le> lower_edge p v \<and> lower_edge p v < int (length p)" for v
    using lower_edge_range[OF assms, of v] by linarith
  have r2: "0 \<le> lower_edge p v \<and> lower_edge p v < int (length (np_diff p))" for v
    using lower_edge_range[OF assms, of v] assms by (simp add: length_np_diff)
  have t1: "np_take p ?iv = Inr (map (\<lambda>i. p ! nat i) ?iv)"
    using r1 by (intro np_take_in_range) auto
  have t2: "np_take (np_diff p) ?iv = Inr (map (\<lambda>i. np_diff p ! nat i) ?iv)"
    using r2 by (intro np_take_in_range) auto
  have d: "np_diff p ! nat (lower_edge p v) = p ! Suc (nat (lower_edge p v)) - p ! nat (lower_edge p v)" for v
    using lower_edge_range[OF assms, of v] assms by (intro nth_np_diff) linarith
  have "map (\<lambda>((v, l), w). (v - l) / w)
          (zip (zip p_out (map (\<lambda>i. p ! nat i) ?iv)) (map (\<lambda>i. np_diff p ! nat i) ?iv))
        = map (norm_distance p) p_out"
    by (simp add: list_eq_iff_nth_eq norm_distance_def Let_def d)
  then show ?thesis
    unfolding axis_precompute_def Let_def iv t1 t2 by simp
qed

lemma np_take_Inl: "np_take a i_vec = Inl e \<Longrightarrow> e = IndexError"
  unfolding np_take_def
  by (erule mapE_Inl_only[rotated]) (auto simp: np_index_def split: if_splits sum.splits)

lemma axis_precompute_short:
  assumes "length p < 2" "p_out \<noteq> []"
  shows "axis_precompute p_out p = Inl IndexError"
proof -
  let ?iv = "map (\<lambda>i. np_clip i 0 (int (length p) - 2)) (map (\<lambda>v. int (np_searchsorted p v) - 1) p_out)"
  have ne: "?iv \<noteq> []" using assms by simp
  have d: "np_diff p = []" using assms length_np_diff[of p] by simp
  have t2: "np_take (np_diff p) ?iv = Inl IndexError"
    unfolding d by (rule np_take_empty[OF ne])
  show ?thesis
  proof (cases "np_take p ?iv")
    case (Inl e)
    then have "e = IndexError" by (rule np_take_Inl)
    with Inl show ?thesis unfolding axis_precompute_def Let_def by simp
  next
    case (Inr lower)
    with t2 show ?thesis unfolding axis_precompute_def Let_def by simp
  qed
qed

lemma lower_edge_bracket:
  assumes s: "sorted_wrt (<) p" and l: "2 \<le> length p" and lo: "p ! 0 \<le> v" and hi: "v \<le> p ! (length p - 1)"
  shows "p ! nat (lower_edge p v) \<le> v" and "v \<le> p ! Suc (nat (lower_edge p v))"
    and "p ! 0 < v \<Longrightarrow> p ! nat (lower_edge p v) < v"
    and "v = p ! 0 \<Longrightarrow> lower_edge p v = 0"
proof -
  let ?c = "np_searchsorted p v"
  have c_le: "?c \<le> length p" by (rule searchsorted_le)
  have c_ne: "?c \<noteq> length p"
  proof
    assume "?c = length p"
    then have "length p - 1 < ?c" using l by simp
    then have "p ! (length p - 1) < v" by (rule searchsorted_below)
    with hi show False by simp
  qed
  have c_lt: "?c < length p" using c_le c_ne by simp
  show "p ! nat (lower_edge p v) \<le> v"
  proof (cases "?c = 0")
    case True
    then show ?thesis using lo by (simp add: lower_edge_def np_clip_def)
  next
    case False
    then have j: "nat (lower_edge p v) = ?c - 1" using c_lt l
      by (auto simp: lower_edge_def np_clip_def)
    have "p ! (?c - 1) < v" using False by (intro searchsorted_below) simp
    with j show ?thesis by simp
  qed
  show "v \<le> p ! Suc (nat (lower_edge p v))"
  proof (cases "?c = 0")
    case True
    then have "nat (lower_edge p v) = 0" by (simp add: lower_edge_def np_clip_def)
    moreover have "v \<le> p ! 1" using s True l by (intro searchsorted_above) simp_all
    ultimately show ?thesis by simp
  next
    case False
    then have j: "Suc (nat (lower_edge p v)) = ?c" using c_lt l
      by (auto simp: lower_edge_def np_clip_def)
    show ?thesis unfolding j using c_lt by (rule searchsorted_at)
  qed
  show "p ! nat (lower_edge p v) < v" if "p ! 0 < v"
  proof (cases "?c = 0")
    case True
    then have "v \<le> p ! 0" using searchsorted_at[of p v] c_lt by simp
    with that show ?thesis by simp
  next
    case False
    then have j: "nat (lower_edge p v) = ?c - 1" using c_lt l
      by (auto simp: lower_edge_def np_clip_def)
    have "p ! (?c - 1) < v" using False by (intro searchsorted_below) simp
    with j show ?thesis by simp
  qed
  show "lower_edge p v = 0" if "v = p ! 0"
  proof -
    have "0 < length p" using l by (cases p) auto
    with s have "?c = 0" unfolding that by (rule searchsorted_nth)
    then show ?thesis using l by (simp add: lower_edge_def np_clip_def)
  qed
qed

lemma norm_distance_range:
  assumes s: "sorted_wrt (<) p" and l: "2 \<le> length p" and lo: "p ! 0 \<le> v" and hi: "v \<le> p ! (length p - 1)"
  shows "0 \<le> norm_distance p v" and "norm_distance p v \<le> 1"
proof -
  let ?j = "nat (lower_edge p v)"
  have j: "Suc ?j < length p" using lower_edge_range[OF l, of v] l by linarith
  have w: "p ! ?j < p ! Suc ?j" using s j by (simp add: sorted_wrt_iff_nth_less)
  have a: "p ! ?j \<le> v" and b: "v \<le> p ! Suc ?j"
    using lower_edge_bracket[OF s l lo hi] by simp_all
  show "0 \<le> norm_distance p v" using a w by (simp add: norm_distance_def Let_def)
  show "norm_distance p v \<le> 1" using b w by (simp add: norm_distance_def Let_def)
qed

lemma lower_edge_grid_point:
  assumes s: "sorted_wrt (<) p" and l: "2 \<le> length p" and k: "k < length p"
  shows "lower_edge p (p ! k) = (if k = 0 then 0 else int k - 1)"
    and "norm_distance p (p ! k) = (if k = 0 then 0 else 1)"
proof -
  have c: "np_searchsorted p (p ! k) = k" using s k by (rule searchsorted_nth)
  show le: "lower_edge p (p ! k) = (if k = 0 then 0 else int k - 1)"
    using k l by (auto simp: lower_edge_def np_clip_def c)
  show "norm_distance p (p ! k) = (if k = 0 then 0 else 1)"
  proof (cases "k = 0")
    case True
    have "lower_edge p (p ! 0) = 0" using le True by simp
    then show ?thesis using True by (simp add: norm_distance_def Let_def)
  next
    case False
    then have j: "nat (lower_edge p (p ! k)) = k - 1" "Suc (k - 1) = k" by (simp_all add: le)
    have "p ! (k - 1) < p ! k" using s k False by (simp add: sorted_wrt_iff_nth_less)
    then show ?thesis using False by (simp add: norm_distance_def Let_def j)
  qed
qed

subsection \<open>The weight table\<close>

lemma edge_keys_mem:
  "k \<in> set (edge_keys n) \<Longrightarrow> length k = n \<and> (\<forall>j \<in> set k. j < 2)"
proof -
  assume "k \<in> set (edge_keys n)"
  then have "list_all2 (\<lambda>x ys. x \<in> set ys) k (replicate n [0, 1])"
    by (simp add: edge_keys_def product_lists_set)
  then have "length k = n" and "\<forall>i<length k. k ! i \<in> set (replicate n [0::nat, 1] ! i)"
    by (auto simp: list_all2_conv_all_nth)
  then show ?thesis by (fastforce simp: in_set_conv_nth)
qed

lemma length_edge_keys: "length (edge_keys n) = 2 ^ n"
proof -
  have "prod_list (replicate n (2::nat)) = 2 ^ n" by (induction n) auto
  then show ?thesis by (simp add: edge_keys_def length_product_lists' numeral_2_eq_2)
qed

lemma fold_weights:
  assumes "length acc = length rows"
    and "\<And>row. row \<in> set rows \<Longrightarrow> s + length js \<le> length row"
    and "\<And>j. j \<in> set js \<Longrightarrow> j < 2"
  shows "fold (\<lambda>(k, j) combined_weights.
                 map (\<lambda>(c, w). c * w)
                   (zip combined_weights (map (\<lambda>row. row ! k) ([map (map (\<lambda>u. 1 - u)) rows, rows] ! j))))
           (enumerate s js) acc
         = map (\<lambda>(c, row). c * prod_list (map (\<lambda>(k, j). [1 - row ! k, row ! k] ! j) (enumerate s js)))
             (zip acc rows)"
  using assms
proof (induction js arbitrary: s acc)
  case Nil
  then show ?case by (simp add: list_eq_iff_nth_eq)
next
  case (Cons j js)
  let ?acc' = "map (\<lambda>(c, w). c * w)
                 (zip acc (map (\<lambda>row. row ! s) ([map (map (\<lambda>u. 1 - u)) rows, rows] ! j)))"
  have j: "j < 2" using Cons.prems(3) by simp
  have len: "\<And>row. row \<in> set rows \<Longrightarrow> s < length row" using Cons.prems(2) by fastforce
  have acc': "?acc' = map (\<lambda>(c, row). c * [1 - row ! s, row ! s] ! j) (zip acc rows)"
  proof (cases "j = 0")
    case True
    show ?thesis using Cons.prems(1) len unfolding True
      by (auto simp: list_eq_iff_nth_eq)
  next
    case False
    with j have "j = 1" by simp
    then show ?thesis using Cons.prems(1) by (auto simp: list_eq_iff_nth_eq)
  qed
  have l': "length ?acc' = length rows" unfolding acc' using Cons.prems(1) by simp
  have ih: "fold (\<lambda>(k, j) combined_weights.
                 map (\<lambda>(c, w). c * w)
                   (zip combined_weights (map (\<lambda>row. row ! k) ([map (map (\<lambda>u. 1 - u)) rows, rows] ! j))))
           (enumerate (Suc s) js) ?acc'
         = map (\<lambda>(c, row). c * prod_list (map (\<lambda>(k, j). [1 - row ! k, row ! k] ! j) (enumerate (Suc s) js)))
             (zip ?acc' rows)"
    using Cons.prems by (intro Cons.IH[OF l']) fastforce+
  show ?case
    apply (simp only: enumerate_simps fold_simps prod.case ih)
    apply (subst acc')
    using Cons.prems(1)
    apply (auto simp: list_eq_iff_nth_eq mult.assoc)
    done
qed

lemma enumerate_weights:
  "length row = length js \<Longrightarrow>
   prod_list (map (\<lambda>(k, j). [1 - row ! k, row ! k] ! j) (enumerate 0 js)) = edge_weight js row"
proof -
  assume l: "length row = length js"
  have "map (\<lambda>(k, j). [1 - row ! k, row ! k] ! j) (enumerate 0 js)
        = map (\<lambda>(j, u). [1 - u, u] ! j) (zip js row)"
    using l by (auto simp: list_eq_iff_nth_eq nth_enumerate_eq)
  then show ?thesis by (simp add: edge_weight_def)
qed

lemma product_lists_row_length:
  "row \<in> set (product_lists xss) \<Longrightarrow> length row = length xss"
  by (rule in_set_product_lists_length)

lemma find_weights_eq:
  assumes "arrays \<noteq> []"
  shows "find_weights arrays (length arrays)
         = Inr (map (\<lambda>all_j. (all_j, map (edge_weight all_j) (product_lists arrays)))
                  (edge_keys (length arrays)))"
proof -
  let ?rows = "product_lists arrays"
  have "fold (\<lambda>(k, j) combined_weights.
                 map (\<lambda>(c, w). c * w)
                   (zip combined_weights (map (\<lambda>row. row ! k) ([map (map (\<lambda>u. 1 - u)) ?rows, ?rows] ! j))))
           (enumerate 0 all_j) (replicate (length ?rows) 1)
        = map (edge_weight all_j) ?rows" if k: "all_j \<in> set (edge_keys (length arrays))" for all_j
  proof -
    have lk: "length all_j = length arrays" and jk: "\<And>j. j \<in> set all_j \<Longrightarrow> j < 2"
      using edge_keys_mem[OF k] by auto
    have "fold (\<lambda>(k, j) combined_weights.
                 map (\<lambda>(c, w). c * w)
                   (zip combined_weights (map (\<lambda>row. row ! k) ([map (map (\<lambda>u. 1 - u)) ?rows, ?rows] ! j))))
           (enumerate 0 all_j) (replicate (length ?rows) 1)
        = map (\<lambda>(c, row). c * prod_list (map (\<lambda>(k, j). [1 - row ! k, row ! k] ! j) (enumerate 0 all_j)))
             (zip (replicate (length ?rows) 1) ?rows)"
      using lk jk by (intro fold_weights) (simp_all add: product_lists_row_length)
    also have "\<dots> = map (edge_weight all_j) ?rows"
      using lk by (auto simp: list_eq_iff_nth_eq enumerate_weights product_lists_row_length)
    finally show ?thesis .
  qed
  then show ?thesis
    unfolding find_weights_def cartesian_prod_product_lists[OF assms]
    by (simp add: Let_def)
qed

subsection \<open>Construction\<close>

lemma length_out_axes: "length outs = length inp \<Longrightarrow> length (out_axes inp outs) = length inp"
  by (simp add: out_axes_def)

lemma init_linspace:
  assumes "\<And>p. p \<in> set inp \<Longrightarrow> p \<noteq> []"
  shows "mapE (\<lambda>(p, n_p). if p = [] then Inl IndexError
                            else Inr (np_linspace (hd p) (last p) (nat n_p))) (zip inp outs)
         = Inr (out_axes inp outs)"
  unfolding out_axes_def using assms by (intro mapE_map) (auto dest: set_zip_leftD)

lemma init_precompute:
  assumes "\<And>p. p \<in> set inp \<Longrightarrow> 2 \<le> length p"
  shows "mapE (\<lambda>(p_out, p_in). axis_precompute p_out p_in) (zip outp inp)
         = Inr (map (\<lambda>(p_out, p_in). (map (lower_edge p_in) p_out, map (norm_distance p_in) p_out))
                  (zip outp inp))"
  using assms by (intro mapE_map) (auto dest: set_zip_rightD simp: axis_precompute_eq)

lemma init_valid:
  assumes "valid_config inp outs"
  shows "resampler_init inp outs = Inr (built inp outs)"
proof -
  have ne: "inp \<noteq> []" and len: "length outs = length inp"
    and ax: "\<And>p. p \<in> set inp \<Longrightarrow> 2 \<le> length p \<and> sorted_wrt (<) p"
    and n2: "\<And>n. n \<in> set outs \<Longrightarrow> 2 \<le> n"
    using assms by (auto simp: valid_config_def list_all_iff)
  have c1: "\<not> list_ex (\<lambda>p. list_ex (\<lambda>d. d \<le> 0) (np_diff p)) inp"
    using ax ascending_check by (auto simp: list_ex_iff)
  have c3: "\<not> list_ex (\<lambda>n_p. n_p < 2) outs"
    using n2 by (fastforce simp: list_ex_iff)
  have l1: "mapE (\<lambda>(p, n_p). if p = [] then Inl IndexError
                            else Inr (np_linspace (hd p) (last p) (nat n_p))) (zip inp outs)
         = Inr (out_axes inp outs)"
    using ax by (intro init_linspace) fastforce
  have l2: "mapE (\<lambda>(p_out, p_in). axis_precompute p_out p_in) (zip (out_axes inp outs) inp)
         = Inr (map (\<lambda>(p_out, p_in). (map (lower_edge p_in) p_out, map (norm_distance p_in) p_out))
                  (zip (out_axes inp outs) inp))"
    using ax by (intro init_precompute) simp
  have f: "map fst (map (\<lambda>(p_out, p_in). (map (lower_edge p_in) p_out, map (norm_distance p_in) p_out))
                  (zip (out_axes inp outs) inp)) = lower_axes inp outs"
    by (simp add: lower_axes_def o_def case_prod_unfold)
  have s: "map snd (map (\<lambda>(p_out, p_in). (map (lower_edge p_in) p_out, map (norm_distance p_in) p_out))
                  (zip (out_axes inp outs) inp)) = upper_axes inp outs"
    by (simp add: upper_axes_def o_def case_prod_unfold)
  have lu: "length (upper_axes inp outs) = length inp" and ll: "length (lower_axes inp outs) = length inp"
    using len by (simp_all add: upper_axes_def lower_axes_def length_out_axes)
  have une: "upper_axes inp outs \<noteq> []" and lne: "lower_axes inp outs \<noteq> []"
    using lu ll ne by auto
  have w: "find_weights (upper_axes inp outs) (length inp)
           = Inr (map (\<lambda>all_j. (all_j, map (edge_weight all_j) (product_lists (upper_axes inp outs))))
                  (edge_keys (length inp)))"
    using find_weights_eq[OF une] unfolding lu .
  show ?thesis
    unfolding resampler_init_def
    by (simp only: c1 c3 len l1 l2 f s w cartesian_prod_product_lists[OF lne] built_def
        if_False sum.case Let_def simp_thms)
qed

lemma mapE_Inl_mem:
  "x \<in> set xs \<Longrightarrow> f x = Inl e \<Longrightarrow> \<exists>e'. mapE f xs = Inl e'"
  by (induction xs) (auto split: sum.splits)

lemma init_short_axis:
  assumes len: "length outs = length inp"
    and n2: "\<And>n. n \<in> set outs \<Longrightarrow> 2 \<le> n"
    and p: "p \<in> set inp" "length p < 2"
  shows "\<exists>e. resampler_init inp outs = Inl e"
proof (cases "list_ex (\<lambda>p. list_ex (\<lambda>d. d \<le> 0) (np_diff p)) inp")
  case True
  then show ?thesis by (simp add: resampler_init_def)
next
  case c1: False
  have c3: "\<not> list_ex (\<lambda>n_p. n_p < 2) outs"
    using n2 by (fastforce simp: list_ex_iff)
  show ?thesis
  proof (cases "\<exists>q \<in> set inp. q = []")
    case True
    then obtain i where i: "i < length inp" "inp ! i = []" by (auto simp: in_set_conv_nth)
    then have "(inp ! i, outs ! i) \<in> set (zip inp outs)"
      using len by (metis in_set_zip fst_conv snd_conv)
    then have "\<exists>e'. mapE (\<lambda>(p, n_p). if p = [] then Inl IndexError
                            else Inr (np_linspace (hd p) (last p) (nat n_p))) (zip inp outs) = Inl e'"
      using i by (intro mapE_Inl_mem[where e = IndexError]) auto
    then show ?thesis using c1 c3 len by (auto simp: resampler_init_def)
  next
    case False
    then have l1: "mapE (\<lambda>(p, n_p). if p = [] then Inl IndexError
                            else Inr (np_linspace (hd p) (last p) (nat n_p))) (zip inp outs)
         = Inr (out_axes inp outs)"
      by (intro init_linspace) auto
    obtain i where i: "i < length inp" "inp ! i = p" using p by (auto simp: in_set_conv_nth)
    have "2 \<le> outs ! i" using i len n2 by simp
    then have "length (out_axes inp outs ! i) \<noteq> 0"
      using i len by (simp add: out_axes_def length_np_linspace)
    then have one: "out_axes inp outs ! i \<noteq> []" by simp
    have "i < length (out_axes inp outs)" using i len by (simp add: length_out_axes)
    then have "(out_axes inp outs ! i, inp ! i) \<in> set (zip (out_axes inp outs) inp)"
      using i by (metis in_set_zip fst_conv snd_conv)
    moreover have "axis_precompute (out_axes inp outs ! i) (inp ! i) = Inl IndexError"
      using one i p by (intro axis_precompute_short) auto
    ultimately have "\<exists>e'. mapE (\<lambda>(p_out, p_in). axis_precompute p_out p_in) (zip (out_axes inp outs) inp) = Inl e'"
      by (intro mapE_Inl_mem[where e = IndexError]) auto
    then show ?thesis using c1 c3 len l1 by (auto simp: resampler_init_def)
  qed
qed

lemma init_no_axis: "resampler_init [] outs \<noteq> Inr r"
  by (auto simp: resampler_init_def find_weights_def split: if_splits)

lemma init_Inr_valid:
  assumes "resampler_init inp outs = Inr r"
  shows "valid_config inp outs"
proof -
  have ne: "inp \<noteq> []" using assms init_no_axis by auto
  have c1: "\<not> list_ex (\<lambda>p. list_ex (\<lambda>d. d \<le> 0) (np_diff p)) inp"
    and len: "length outs = length inp"
    and c3: "\<not> list_ex (\<lambda>n_p. n_p < 2) outs"
    using assms by (auto simp: resampler_init_def split: if_splits)
  have n2: "\<And>n. n \<in> set outs \<Longrightarrow> 2 \<le> n" using c3 by (auto simp: list_ex_iff)
  have asc: "\<And>p. p \<in> set inp \<Longrightarrow> sorted_wrt (<) p"
    using c1 ascending_check by (auto simp: list_ex_iff)
  have "2 \<le> length p" if "p \<in> set inp" for p
  proof (rule ccontr)
    assume "\<not> 2 \<le> length p"
    then have "\<exists>e. resampler_init inp outs = Inl e"
      using len n2 that by (intro init_short_axis) auto
    with assms show False by simp
  qed
  with ne len n2 asc show ?thesis by (auto simp: valid_config_def list_all_iff)
qed

lemma init_Inr_iff: "resampler_init inp outs = Inr r \<longleftrightarrow> valid_config inp outs \<and> r = built inp outs"
proof
  assume a: "resampler_init inp outs = Inr r"
  then have v: "valid_config inp outs" by (rule init_Inr_valid)
  from init_valid[OF v] a show "valid_config inp outs \<and> r = built inp outs" using v by simp
next
  assume "valid_config inp outs \<and> r = built inp outs"
  then show "resampler_init inp outs = Inr r" using init_valid by simp
qed

lemma nd_item_in_range:
  assumes "length idx = length (shape a)"
    and "\<And>i. i < length idx \<Longrightarrow> 0 \<le> idx ! i \<and> idx ! i < int (shape a ! i)"
  shows "nd_item a idx = Inr (data a ! ravel_multi_index (shape a) (map nat idx))"
proof -
  have "mapE (\<lambda>(n, i). np_index n i) (zip (shape a) idx)
        = Inr (map (\<lambda>(n, i). nat i) (zip (shape a) idx))"
  proof (rule mapE_map)
    fix x assume "x \<in> set (zip (shape a) idx)"
    then obtain i where "i < length idx" "x = (shape a ! i, idx ! i)"
      using assms(1) by (auto simp: set_zip)
    with assms(2)[of i] show "(case x of (n, i) \<Rightarrow> np_index n i) = Inr (case x of (n, i) \<Rightarrow> nat i)"
      by (simp add: np_index_def)
  qed
  moreover have "map (\<lambda>(n, i). nat i) (zip (shape a) idx) = map nat idx"
    using assms(1) by (simp add: list_eq_iff_nth_eq)
  ultimately show ?thesis using assms(1) by (simp add: nd_item_def)
qed

lemma map_of_keys: "k \<in> set ks \<Longrightarrow> map_of (map (\<lambda>k. (k, f k)) ks) k = Some (f k)"
  by (induction ks) auto

lemma valid_axes_lengths:
  assumes "valid_config inp outs"
  shows "map length (out_axes inp outs) = map nat outs"
    and "map length (lower_axes inp outs) = map nat outs"
    and "map length (upper_axes inp outs) = map nat outs"
proof -
  have len: "length outs = length inp" using assms by (simp add: valid_config_def)
  show o: "map length (out_axes inp outs) = map nat outs"
    using len by (simp add: out_axes_def list_eq_iff_nth_eq length_np_linspace)
  have lo: "length (out_axes inp outs) = length inp" using len by (rule length_out_axes)
  have "map length (lower_axes inp outs) = map length (out_axes inp outs)"
    using lo by (simp add: lower_axes_def list_eq_iff_nth_eq)
  with o show "map length (lower_axes inp outs) = map nat outs" by simp
  have "map length (upper_axes inp outs) = map length (out_axes inp outs)"
    using lo by (simp add: upper_axes_def list_eq_iff_nth_eq)
  with o show "map length (upper_axes inp outs) = map nat outs" by simp
qed

lemma nat_prod_list: "(\<And>n. n \<in> set ns \<Longrightarrow> 0 \<le> n) \<Longrightarrow> nat (prod_list ns) = prod_list (map nat ns)"
proof (induction ns)
  case Nil
  then show ?case by simp
next
  case (Cons n ns)
  then have "0 \<le> n" "nat (prod_list ns) = prod_list (map nat ns)" by auto
  then show ?case by (simp add: nat_mult_distrib)
qed

lemma valid_total:
  assumes "valid_config inp outs"
  shows "length (product_lists (lower_axes inp outs)) = nat (prod_list outs)"
    and "length (product_lists (upper_axes inp outs)) = nat (prod_list outs)"
proof -
  have "\<And>n. n \<in> set outs \<Longrightarrow> 0 \<le> n"
    using assms by (fastforce simp: valid_config_def list_all_iff)
  then have "nat (prod_list outs) = prod_list (map nat outs)" by (rule nat_prod_list)
  then show "length (product_lists (lower_axes inp outs)) = nat (prod_list outs)"
    and "length (product_lists (upper_axes inp outs)) = nat (prod_list outs)"
    using valid_axes_lengths[OF assms] by (simp_all add: length_product_lists')
qed

lemma lower_rows_range:
  assumes v: "valid_config inp outs" and row: "row \<in> set (product_lists (lower_axes inp outs))"
  shows "length row = length inp"
    and "\<And>i. i < length inp \<Longrightarrow> 0 \<le> row ! i \<and> row ! i \<le> int (length (inp ! i)) - 2"
proof -
  have len: "length outs = length inp" using v by (simp add: valid_config_def)
  have ll: "length (lower_axes inp outs) = length inp"
    using len by (simp add: lower_axes_def length_out_axes)
  from row have a: "list_all2 (\<lambda>x ys. x \<in> set ys) row (lower_axes inp outs)"
    by (simp add: product_lists_set)
  then show l: "length row = length inp" using ll by (simp add: list_all2_lengthD)
  fix i assume i: "i < length inp"
  have "row ! i \<in> set (lower_axes inp outs ! i)"
    using a i l by (simp add: list_all2_conv_all_nth)
  moreover have "lower_axes inp outs ! i = map (lower_edge (inp ! i)) (out_axes inp outs ! i)"
    using i len by (simp add: lower_axes_def length_out_axes)
  ultimately obtain x where x: "row ! i = lower_edge (inp ! i) x" by auto
  have "2 \<le> length (inp ! i)" using v i by (simp add: valid_config_def list_all_length)
  from lower_edge_range[OF this, of x] x
  show "0 \<le> row ! i \<and> row ! i \<le> int (length (inp ! i)) - 2" by simp
qed

lemma upper_rows_range:
  assumes v: "valid_config inp outs" and row: "row \<in> set (product_lists (upper_axes inp outs))"
  shows "length row = length inp"
    and "\<And>i. i < length inp \<Longrightarrow> 0 \<le> row ! i \<and> row ! i \<le> 1"
proof -
  have len: "length outs = length inp" using v by (simp add: valid_config_def)
  have lo: "length (out_axes inp outs) = length inp" using len by (rule length_out_axes)
  have ll: "length (upper_axes inp outs) = length inp"
    using len by (simp add: upper_axes_def length_out_axes)
  from row have a: "list_all2 (\<lambda>x ys. x \<in> set ys) row (upper_axes inp outs)"
    by (simp add: product_lists_set)
  then show l: "length row = length inp" using ll by (simp add: list_all2_lengthD)
  fix i assume i: "i < length inp"
  let ?p = "inp ! i"
  let ?n = "nat (outs ! i)"
  have "row ! i \<in> set (upper_axes inp outs ! i)"
    using a i l by (simp add: list_all2_conv_all_nth)
  moreover have "upper_axes inp outs ! i = map (norm_distance ?p) (out_axes inp outs ! i)"
    using i lo by (simp add: upper_axes_def)
  moreover have oa: "out_axes inp outs ! i = np_linspace (hd ?p) (last ?p) ?n"
    using i len by (simp add: out_axes_def)
  ultimately obtain k where k: "k < ?n" "row ! i = norm_distance ?p (np_linspace (hd ?p) (last ?p) ?n ! k)"
    by (auto simp: in_set_conv_nth length_np_linspace)
  have p2: "2 \<le> length ?p" and ps: "sorted_wrt (<) ?p"
    using v i by (simp_all add: valid_config_def list_all_length)
  have "2 \<le> outs ! i" using v i len by (simp add: valid_config_def list_all_length)
  then have n2: "2 \<le> ?n" by simp
  have pne: "?p \<noteq> []" using p2 by auto
  have h: "hd ?p = ?p ! 0" using pne by (simp add: hd_conv_nth)
  have la: "last ?p = ?p ! (length ?p - 1)" using pne by (simp add: last_conv_nth)
  have "?p ! 0 < ?p ! (length ?p - 1)" using ps p2 by (simp add: sorted_wrt_iff_nth_less)
  then have hl: "hd ?p \<le> last ?p" using h la by simp
  have b: "?p ! 0 \<le> np_linspace (hd ?p) (last ?p) ?n ! k"
          "np_linspace (hd ?p) (last ?p) ?n ! k \<le> ?p ! (length ?p - 1)"
    using np_linspace_bounds[OF n2 k(1) hl] h la by simp_all
  from norm_distance_range[OF ps p2 b] k(2)
  show "0 \<le> row ! i \<and> row ! i \<le> 1" by simp
qed

subsection \<open>The call\<close>

lemma fancy_cols_row:
  assumes "length k = n" "\<And>row. row \<in> set rows \<Longrightarrow> length row = n" "t < length rows"
  shows "map (\<lambda>col. col ! t)
           (map (\<lambda>(j, a). map (\<lambda>x. x + int j) a)
              (zip k (map (\<lambda>i. map (\<lambda>row. row ! i) rows) [0..<n])))
         = edge_index k (rows ! t)"
proof -
  have "length (rows ! t) = n" using assms(2,3) by simp
  then show ?thesis using assms(1,3)
    by (simp add: list_eq_iff_nth_eq edge_index_def)
qed

lemma map_upt_nth: "map (\<lambda>t. f (xs ! t)) [0..<length xs] = map f xs"
  by (rule nth_equalityI) simp_all

lemma nd_fancy_cols:
  assumes n: "0 < n" and k: "length k = n" and sh: "length (shape g) = n"
    and rows: "\<And>row. row \<in> set rows \<Longrightarrow> length row = n"
    and rng: "\<And>row i. row \<in> set rows \<Longrightarrow> i < n \<Longrightarrow>
                0 \<le> row ! i + int (k ! i) \<and> row ! i + int (k ! i) < int (shape g ! i)"
  shows "nd_fancy g (map (\<lambda>(j, a). map (\<lambda>x. x + int j) a)
              (zip k (map (\<lambda>i. map (\<lambda>row. row ! i) rows) [0..<n])))
         = Inr (map (corner_value g k) rows)"
proof -
  let ?cols = "map (\<lambda>(j, a). map (\<lambda>x. x + int j) a)
              (zip k (map (\<lambda>i. map (\<lambda>row. row ! i) rows) [0..<n]))"
  have ne: "?cols \<noteq> []" using n k by auto
  have "hd ?cols = ?cols ! 0" using ne by (simp add: hd_conv_nth)
  also have "\<dots> = map (\<lambda>x. x + int (k ! 0)) (map (\<lambda>row. row ! 0) rows)"
    using n k by simp
  finally have lh: "length (hd ?cols) = length rows" by simp
  have "mapE (\<lambda>t. nd_item g (map (\<lambda>col. col ! t) ?cols)) [0..<length rows]
        = Inr (map (\<lambda>t. corner_value g k (rows ! t)) [0..<length rows])"
  proof (rule mapE_map)
    fix t assume "t \<in> set [0..<length rows]"
    then have t: "t < length rows" by simp
    have row: "rows ! t \<in> set rows" using t by simp
    have e: "map (\<lambda>col. col ! t) ?cols = edge_index k (rows ! t)"
      using k rows t by (rule fancy_cols_row)
    have le: "length (edge_index k (rows ! t)) = length (shape g)"
      using k rows[OF row] sh by (simp add: edge_index_def)
    have "nd_item g (edge_index k (rows ! t))
          = Inr (data g ! ravel_multi_index (shape g) (map nat (edge_index k (rows ! t))))"
    proof (rule nd_item_in_range[OF le])
      fix i assume "i < length (edge_index k (rows ! t))"
      then have i: "i < n" using le sh by simp
      then have "edge_index k (rows ! t) ! i = rows ! t ! i + int (k ! i)"
        using k rows[OF row] by (simp add: edge_index_def)
      with rng[OF row i]
      show "0 \<le> edge_index k (rows ! t) ! i \<and> edge_index k (rows ! t) ! i < int (shape g ! i)"
        by simp
    qed
    then show "nd_item g (map (\<lambda>col. col ! t) ?cols) = Inr (corner_value g k (rows ! t))"
      unfolding e corner_value_def .
  qed
  then show ?thesis unfolding nd_fancy_def lh by (simp only: map_upt_nth)
qed

lemma add_edges_sum:
  assumes "length acc = N"
    and "\<And>k w. (k, w) \<in> set ws \<Longrightarrow>
           \<exists>c. map_of (fancy_inds_all r) k = Some c \<and> nd_fancy g c = Inr (V k)
                \<and> length (V k) = N \<and> length w = N"
  shows "add_edges r g ws acc
         = Inr (map (\<lambda>t. acc ! t + (\<Sum>(k, w) \<leftarrow> ws. V k ! t * w ! t)) [0..<N])"
  using assms
proof (induction ws arbitrary: acc)
  case Nil
  then show ?case by (simp add: list_eq_iff_nth_eq)
next
  case (Cons kw ws)
  obtain k w where kw: "kw = (k, w)" by (cases kw)
  obtain c where c: "map_of (fancy_inds_all r) k = Some c" "nd_fancy g c = Inr (V k)"
      "length (V k) = N" "length w = N"
    using Cons.prems(2)[of k w] kw by auto
  let ?acc' = "map (\<lambda>(x, y). x + y) (zip acc (map (\<lambda>(x, y). x * y) (zip (V k) w)))"
  have l': "length ?acc' = N" using Cons.prems(1) c by simp
  have ih: "add_edges r g ws ?acc'
            = Inr (map (\<lambda>t. ?acc' ! t + (\<Sum>(k, w) \<leftarrow> ws. V k ! t * w ! t)) [0..<N])"
    using Cons.prems(2) by (intro Cons.IH[OF l']) auto
  have "map (\<lambda>t. ?acc' ! t + (\<Sum>(k, w) \<leftarrow> ws. V k ! t * w ! t)) [0..<N]
        = map (\<lambda>t. acc ! t + (\<Sum>(k, w) \<leftarrow> kw # ws. V k ! t * w ! t)) [0..<N]"
    using Cons.prems(1) c kw by (simp add: list_eq_iff_nth_eq)
  with ih show ?case
    using c Cons.prems(1) by (simp add: kw np_binop_def)
qed

lemma sum_list_keys:
  "(\<Sum>(k, w) \<leftarrow> map (\<lambda>k. (k, W k)) ks. V k ! t * w ! t) = (\<Sum>k \<leftarrow> ks. V k ! t * W k ! t)"
  by (simp add: o_def)

lemma built_fancy:
  assumes v: "valid_config inp outs" and sh: "shape g = map length inp"
    and k: "k \<in> set (edge_keys (length inp))"
  shows "\<exists>c. map_of (fancy_inds_all (built inp outs)) k = Some c
             \<and> nd_fancy g c = Inr (map (corner_value g k) (product_lists (lower_axes inp outs)))"
proof -
  let ?n = "length inp"
  let ?rows = "product_lists (lower_axes inp outs)"
  let ?c = "map (\<lambda>(j, a). map (\<lambda>x. x + int j) a)
              (zip k (map (\<lambda>i. map (\<lambda>row. row ! i) ?rows) [0..<?n]))"
  have n: "0 < ?n" using v by (simp add: valid_config_def)
  have lk: "length k = ?n" and jk: "\<And>j. j \<in> set k \<Longrightarrow> j < 2"
    using edge_keys_mem[OF k] by auto
  have m: "map_of (fancy_inds_all (built inp outs)) k = Some ?c"
    unfolding built_def using k by (simp add: map_of_keys[where f = "\<lambda>all_j. map (\<lambda>(j, a). map (\<lambda>x. x + int j) a)
              (zip all_j (map (\<lambda>i. map (\<lambda>row. row ! i) ?rows) [0..<?n]))"])
  have "nd_fancy g ?c = Inr (map (corner_value g k) ?rows)"
  proof (rule nd_fancy_cols[OF n lk])
    show "length (shape g) = ?n" using sh by simp
    show "\<And>row. row \<in> set ?rows \<Longrightarrow> length row = ?n" using lower_rows_range(1)[OF v] .
    fix row i assume row: "row \<in> set ?rows" and i: "i < ?n"
    have "k ! i < 2" using jk lk i by simp
    with lower_rows_range(2)[OF v row i] sh i
    show "0 \<le> row ! i + int (k ! i) \<and> row ! i + int (k ! i) < int (shape g ! i)"
      by simp
  qed
  with m show ?thesis by blast
qed

lemma call_built:
  assumes v: "valid_config inp outs" and sh: "shape g = map length inp"
  shows "resampler_call (built inp outs) g
         = Inr (out_axes inp outs,
                \<lparr>shape = map nat outs,
                 data = map (\<lambda>t. \<Sum>k \<leftarrow> edge_keys (length inp).
                                 corner_value g k (product_lists (lower_axes inp outs) ! t)
                                 * edge_weight k (product_lists (upper_axes inp outs) ! t))
                          [0..<nat (prod_list outs)]\<rparr>)"
proof -
  let ?N = "nat (prod_list outs)"
  let ?L = "product_lists (lower_axes inp outs)"
  let ?U = "product_lists (upper_axes inp outs)"
  let ?ws = "map (\<lambda>all_j. (all_j, map (edge_weight all_j) ?U)) (edge_keys (length inp))"
  have N: "length ?L = ?N" "length ?U = ?N" using valid_total[OF v] by simp_all
  have "\<And>n. n \<in> set outs \<Longrightarrow> 0 \<le> n"
    using v by (fastforce simp: valid_config_def list_all_iff)
  then have pn: "prod_list (map nat outs) = ?N" by (simp add: nat_prod_list)
  have "add_edges (built inp outs) g ?ws (replicate ?N 0)
        = Inr (map (\<lambda>t. replicate ?N 0 ! t
                     + (\<Sum>(k, w) \<leftarrow> ?ws. map (corner_value g k) ?L ! t * w ! t)) [0..<?N])"
  proof (rule add_edges_sum)
    show "length (replicate ?N (0::real)) = ?N" by simp
    fix k w assume "(k, w) \<in> set ?ws"
    then have k: "k \<in> set (edge_keys (length inp))" and w: "w = map (edge_weight k) ?U" by auto
    from built_fancy[OF v sh k] N w
    show "\<exists>c. map_of (fancy_inds_all (built inp outs)) k = Some c
             \<and> nd_fancy g c = Inr (map (corner_value g k) ?L)
             \<and> length (map (corner_value g k) ?L) = ?N \<and> length w = ?N"
      by auto
  qed
  also have "map (\<lambda>t. replicate ?N 0 ! t
                     + (\<Sum>(k, w) \<leftarrow> ?ws. map (corner_value g k) ?L ! t * w ! t)) [0..<?N]
        = map (\<lambda>t. \<Sum>k \<leftarrow> edge_keys (length inp).
                    corner_value g k (?L ! t) * edge_weight k (?U ! t)) [0..<?N]"
  proof (rule map_cong[OF refl])
    fix t assume "t \<in> set [0..<?N]"
    then have t: "t < ?N" by simp
    have "(\<Sum>(k, w) \<leftarrow> ?ws. map (corner_value g k) ?L ! t * w ! t)
          = (\<Sum>k \<leftarrow> edge_keys (length inp). map (corner_value g k) ?L ! t * map (edge_weight k) ?U ! t)"
      by (rule sum_list_keys)
    also have "\<dots> = (\<Sum>k \<leftarrow> edge_keys (length inp). corner_value g k (?L ! t) * edge_weight k (?U ! t))"
      using t N by simp
    finally show "replicate ?N 0 ! t + (\<Sum>(k, w) \<leftarrow> ?ws. map (corner_value g k) ?L ! t * w ! t)
          = (\<Sum>k \<leftarrow> edge_keys (length inp). corner_value g k (?L ! t) * edge_weight k (?U ! t))"
      using t by simp
  qed
  finally have ae: "add_edges (built inp outs) g ?ws (replicate ?N 0)
        = Inr (map (\<lambda>t. \<Sum>k \<leftarrow> edge_keys (length inp).
                    corner_value g k (?L ! t) * edge_weight k (?U ! t)) [0..<?N])" .
  have f: "weights (built inp outs) = ?ws" "in_shape (built inp outs) = map length inp"
      "out_shape (built inp outs) = outs" "out_points (built inp outs) = out_axes inp outs"
    by (simp_all add: built_def)
  show ?thesis
    unfolding resampler_call_def f ae using sh pn by (simp add: np_reshape_def)
qed

subsection \<open>Sums over the edges\<close>

lemma edge_keys_Suc:
  "edge_keys (Suc n) = map ((#) 0) (edge_keys n) @ map ((#) 1) (edge_keys n)"
  by (simp add: edge_keys_def)

lemma edge_keys_0: "edge_keys 0 = [[]]"
  by (simp add: edge_keys_def)

lemma edge_weight_Cons: "edge_weight (b # k) (x # u) = [1 - x, x] ! b * edge_weight k u"
  by (simp add: edge_weight_def)

lemma edge_weight_Nil: "edge_weight [] u = 1"
  by (simp add: edge_weight_def)

lemma edge_sum_Suc:
  "(\<Sum>k \<leftarrow> edge_keys (Suc n). F k * edge_weight k (x # u))
   = (1 - x) * (\<Sum>k \<leftarrow> edge_keys n. F (0 # k) * edge_weight k u)
     + x * (\<Sum>k \<leftarrow> edge_keys n. F (1 # k) * edge_weight k u)"
proof -
  have "(\<Sum>k \<leftarrow> edge_keys n. F (0 # k) * ((1 - x) * edge_weight k u))
        = (1 - x) * (\<Sum>k \<leftarrow> edge_keys n. F (0 # k) * edge_weight k u)"
    by (simp add: sum_list_const_mult mult.left_commute)
  moreover have "(\<Sum>k \<leftarrow> edge_keys n. F (1 # k) * (x * edge_weight k u))
        = x * (\<Sum>k \<leftarrow> edge_keys n. F (1 # k) * edge_weight k u)"
    by (simp add: sum_list_const_mult mult.left_commute)
  ultimately show ?thesis
    by (simp add: edge_keys_Suc edge_weight_Cons o_def)
qed

lemma edge_weights_sum:
  "(\<Sum>k \<leftarrow> edge_keys (length u). edge_weight k u) = 1"
proof (induction u)
  case Nil
  then show ?case by (simp add: edge_keys_0 edge_weight_Nil)
next
  case (Cons x u)
  have "(\<Sum>k \<leftarrow> edge_keys (Suc (length u)). 1 * edge_weight k (x # u))
        = (1 - x) * (\<Sum>k \<leftarrow> edge_keys (length u). 1 * edge_weight k u)
          + x * (\<Sum>k \<leftarrow> edge_keys (length u). 1 * edge_weight k u)"
    by (rule edge_sum_Suc)
  with Cons show ?case by simp
qed

lemma edge_weight_nonneg:
  assumes "\<And>j. j \<in> set k \<Longrightarrow> j < 2" "\<And>x. x \<in> set u \<Longrightarrow> 0 \<le> x \<and> x \<le> 1"
  shows "0 \<le> edge_weight k u"
  using assms
proof (induction k arbitrary: u)
  case Nil
  then show ?case by (simp add: edge_weight_Nil)
next
  case (Cons b k)
  show ?case
  proof (cases u)
    case Nil
    then show ?thesis by (simp add: edge_weight_def)
  next
    case (Cons x u')
    have b: "b = 0 \<or> b = 1" using Cons.prems(1)[of b] by auto
    have x: "0 \<le> x" "x \<le> 1" using Cons.prems(2)[of x] Cons by auto
    have "0 \<le> edge_weight k u'" using Cons.prems Cons by (intro Cons.IH) auto
    moreover have "0 \<le> [1 - x, x] ! b" using b x by auto
    ultimately show ?thesis unfolding Cons edge_weight_Cons by simp
  qed
qed

lemma edge_sum_corner:
  assumes "\<And>x. x \<in> set u \<Longrightarrow> x = 0 \<or> x = 1"
  shows "(\<Sum>k \<leftarrow> edge_keys (length u). F k * edge_weight k u)
         = F (map (\<lambda>x. if x = 1 then 1 else 0) u)"
  using assms
proof (induction u arbitrary: F)
  case Nil
  then show ?case by (simp add: edge_keys_0 edge_weight_Nil)
next
  case (Cons x u)
  have ih: "\<And>F. (\<Sum>k \<leftarrow> edge_keys (length u). F k * edge_weight k u)
         = F (map (\<lambda>x. if x = 1 then 1 else 0) u)"
    using Cons.prems by (intro Cons.IH) auto
  have x: "x = 0 \<or> x = 1" using Cons.prems by simp
  have "(\<Sum>k \<leftarrow> edge_keys (length (x # u)). F k * edge_weight k (x # u))
        = (1 - x) * F (0 # map (\<lambda>x. if x = 1 then 1 else 0) u)
          + x * F (1 # map (\<lambda>x. if x = 1 then 1 else 0) u)"
    using edge_sum_Suc[of F x u "length u"] ih[of "\<lambda>k. F (0 # k)"] ih[of "\<lambda>k. F (1 # k)"]
    by simp
  with x show ?case by auto
qed

lemma convex_lower:
  assumes w: "\<And>k. k \<in> set ks \<Longrightarrow> 0 \<le> w k" and s: "(\<Sum>k \<leftarrow> ks. w k) = (1::real)"
    and lo: "\<And>k. k \<in> set ks \<Longrightarrow> lo \<le> c k"
  shows "lo \<le> (\<Sum>k \<leftarrow> ks. c k * w k)"
proof -
  have "(\<Sum>k \<leftarrow> ks. lo * w k) \<le> (\<Sum>k \<leftarrow> ks. c k * w k)"
    using w lo by (intro sum_list_mono mult_right_mono) auto
  then show ?thesis using s by (simp add: sum_list_const_mult)
qed

lemma convex_upper:
  assumes w: "\<And>k. k \<in> set ks \<Longrightarrow> 0 \<le> w k" and s: "(\<Sum>k \<leftarrow> ks. w k) = (1::real)"
    and hi: "\<And>k. k \<in> set ks \<Longrightarrow> c k \<le> hi"
  shows "(\<Sum>k \<leftarrow> ks. c k * w k) \<le> hi"
proof -
  have "(\<Sum>k \<leftarrow> ks. c k * w k) \<le> (\<Sum>k \<leftarrow> ks. hi * w k)"
    using w hi by (intro sum_list_mono mult_right_mono) auto
  then show ?thesis using s by (simp add: sum_list_const_mult)
qed

section \<open>Properties\<close>

text \<open>
  C9: for the input axis \<open>[0, 10, 20]\<close>, the field \<open>[0, 100, 0]\<close> and the output shape
  \<open>[5]\<close>, construction followed by a call returns the output axis \<open>[0, 5, 10, 15, 20]\<close>
  and the output values \<open>[0, 50, 100, 50, 0]\<close>.
\<close>

theorem example_1d:
  "resample [[0, 10, 20]] [5] \<lparr>shape = [3], data = [0, 100, 0]\<rparr>
   = Inr ([[0, 5, 10, 15, 20]], \<lparr>shape = [5], data = [0, 50, 100, 50, 0]\<rparr>)"
  by code_simp

subsection \<open>The concrete instance\<close>

lemma init_1d: "resampler_init [[0, 10, 20]] [5] = Inr resampler_1d"
  unfolding resampler_1d_def by code_simp

lemma call_1d:
  "resampler_call resampler_1d \<lparr>shape = [3], data = [0, 100, 0]\<rparr>
   = Inr ([[0, 5, 10, 15, 20]], \<lparr>shape = [5], data = [0, 50, 100, 50, 0]\<rparr>)"
  unfolding resampler_1d_def by code_simp

subsection \<open>Partition of unity\<close>

lemma built_weights_sum:
  assumes v: "valid_config inp outs" and t: "t < nat (prod_list outs)"
  shows "(\<Sum>(k, w) \<leftarrow> weights (built inp outs). w ! t) = 1"
proof -
  let ?U = "product_lists (upper_axes inp outs)"
  have N: "length ?U = nat (prod_list outs)" using valid_total[OF v] by simp
  have row: "?U ! t \<in> set ?U" using t N by simp
  have l: "length (?U ! t) = length inp" using upper_rows_range(1)[OF v row] .
  have "(\<Sum>(k, w) \<leftarrow> weights (built inp outs). w ! t)
        = (\<Sum>k \<leftarrow> edge_keys (length inp). map (edge_weight k) ?U ! t)"
    by (simp add: built_def o_def)
  also have "\<dots> = (\<Sum>k \<leftarrow> edge_keys (length inp). edge_weight k (?U ! t))"
    using t N by simp
  also have "\<dots> = 1" using edge_weights_sum[of "?U ! t"] l by simp
  finally show ?thesis .
qed

text \<open>
  C2: for every construction that succeeds, the table of weights has \<open>2 ^ ndim\<close> entries,
  each a vector with one weight per output point, and at every output point \<open>t\<close> the
  weights of all edges sum to exactly 1 (in exact arithmetic).
\<close>

theorem weights_sum_to_one:
  assumes "resampler_init inp outs = Inr r" and "t < nat (prod_list outs)"
  shows "length (weights r) = 2 ^ ndim r
         \<and> (\<forall>(k, w) \<in> set (weights r). length w = nat (prod_list outs))
         \<and> (\<Sum>(k, w) \<leftarrow> weights r. w ! t) = 1"
proof -
  have v: "valid_config inp outs" and r: "r = built inp outs"
    using assms(1) by (simp_all add: init_Inr_iff)
  have "length (weights r) = 2 ^ ndim r"
    unfolding r by (simp add: built_def length_edge_keys)
  moreover have "\<forall>(k, w) \<in> set (weights r). length w = nat (prod_list outs)"
    unfolding r using valid_total(2)[OF v] by (auto simp: built_def)
  moreover have "(\<Sum>(k, w) \<leftarrow> weights r. w ! t) = 1"
    unfolding r using v assms(2) by (rule built_weights_sum)
  ultimately show ?thesis by blast
qed

theorem weights_sum_to_one_witness:
  "resampler_init [[0, 10, 20]] [5] = Inr resampler_1d \<and> (2::nat) < nat (prod_list [5])
   \<and> length (weights resampler_1d) = 2 ^ ndim resampler_1d
   \<and> (\<Sum>(k, w) \<leftarrow> weights resampler_1d. w ! 2) = 1"
  using weights_sum_to_one[OF init_1d, of 2] init_1d by simp

subsection \<open>The shape contract\<close>

lemma call_wrong_shape:
  "shape g \<noteq> in_shape r \<Longrightarrow>
   resampler_call r g
   = Inl (ValueError ''Shape of grid array doesn't match shape of this RegularGridResampler'')"
  by (simp add: resampler_call_def)

text \<open>
  C6: a call on a grid whose shape differs from the stored input shape raises the
  ValueError of the shape test; after a construction that succeeded, a call on a grid of
  the stored shape returns the stored output coordinate arrays together with an array
  whose shape is exactly the requested output shape (and which holds one value per
  output point).
\<close>

theorem call_shape_contract:
  "(shape g \<noteq> in_shape r \<longrightarrow>
      resampler_call r g
      = Inl (ValueError ''Shape of grid array doesn't match shape of this RegularGridResampler''))
   \<and> (resampler_init inp outs = Inr r \<and> shape g = in_shape r \<longrightarrow>
        (\<exists>out. resampler_call r g = Inr (out_points r, out)
               \<and> shape out = map nat outs \<and> out_shape r = outs \<and> ndarray_ok out))"
proof (intro conjI impI)
  assume "shape g \<noteq> in_shape r"
  then show "resampler_call r g
      = Inl (ValueError ''Shape of grid array doesn't match shape of this RegularGridResampler'')"
    by (rule call_wrong_shape)
next
  assume a: "resampler_init inp outs = Inr r \<and> shape g = in_shape r"
  then have v: "valid_config inp outs" and r: "r = built inp outs"
    by (simp_all add: init_Inr_iff)
  have sh: "shape g = map length inp" using a r by (simp add: built_def)
  have "\<And>n. n \<in> set outs \<Longrightarrow> 0 \<le> n"
    using v by (fastforce simp: valid_config_def list_all_iff)
  then have pn: "prod_list (map nat outs) = nat (prod_list outs)" by (simp add: nat_prod_list)
  show "\<exists>out. resampler_call r g = Inr (out_points r, out)
               \<and> shape out = map nat outs \<and> out_shape r = outs \<and> ndarray_ok out"
    unfolding r call_built[OF v sh] using pn by (simp add: built_def ndarray_ok_def)
qed

theorem call_shape_contract_witness:
  "shape \<lparr>shape = [2], data = [1, 2]\<rparr> \<noteq> in_shape resampler_1d
   \<and> resampler_call resampler_1d \<lparr>shape = [2], data = [1, 2]\<rparr>
     = Inl (ValueError ''Shape of grid array doesn't match shape of this RegularGridResampler'')
   \<and> resampler_init [[0, 10, 20]] [5] = Inr resampler_1d
   \<and> shape \<lparr>shape = [3], data = [0, 100, 0]\<rparr> = in_shape resampler_1d
   \<and> resampler_call resampler_1d \<lparr>shape = [3], data = [0, 100, 0]\<rparr>
     = Inr (out_points resampler_1d, \<lparr>shape = [5], data = [0, 50, 100, 50, 0]\<rparr>)
   \<and> shape \<lparr>shape = [5], data = [0, 50, 100, 50, 0::real]\<rparr> = map nat [5]"
proof -
  have a: "shape \<lparr>shape = [2], data = [1, 2]\<rparr> \<noteq> in_shape resampler_1d"
    by (simp add: resampler_1d_def)
  have b: "shape \<lparr>shape = [3], data = [0, 100, 0]\<rparr> = in_shape resampler_1d"
    by (simp add: resampler_1d_def)
  have c: "out_points resampler_1d = [[0, 5, 10, 15, 20]]" by (simp add: resampler_1d_def)
  from call_shape_contract[of "\<lparr>shape = [2], data = [1, 2]\<rparr>" resampler_1d "[]" "[]"] a
  have 1: "resampler_call resampler_1d \<lparr>shape = [2], data = [1, 2]\<rparr>
     = Inl (ValueError ''Shape of grid array doesn't match shape of this RegularGridResampler'')"
    by blast
  show ?thesis using a b c 1 init_1d call_1d by simp
qed

subsection \<open>No extrapolation\<close>

lemma ascending_Min_Max:
  assumes "sorted_wrt (<) p" "p \<noteq> []"
  shows "Min (set p) = hd p" and "Max (set p) = last p"
proof -
  have le: "p ! i \<le> p ! j" if "i \<le> j" "j < length p" for i j
    using assms(1) that by (cases "i = j") (auto simp: sorted_wrt_iff_nth_less less_imp_le)
  show "Min (set p) = hd p"
  proof (rule Min_eqI)
    show "finite (set p)" by simp
    show "hd p \<in> set p" using assms(2) by simp
    fix y assume "y \<in> set p"
    then obtain k where "k < length p" "y = p ! k" by (auto simp: in_set_conv_nth)
    with le[of 0 k] assms(2) show "hd p \<le> y" by (simp add: hd_conv_nth)
  qed
  show "Max (set p) = last p"
  proof (rule Max_eqI)
    show "finite (set p)" by simp
    show "last p \<in> set p" using assms(2) by simp
    fix y assume "y \<in> set p"
    then obtain k where "k < length p" "y = p ! k" by (auto simp: in_set_conv_nth)
    with le[of k "length p - 1"] assms(2) show "y \<le> last p" by (simp add: last_conv_nth)
  qed
qed

lemma linspace_Min_Max:
  assumes "2 \<le> n" "a \<le> b"
  shows "Min (set (np_linspace a b n)) = a" and "Max (set (np_linspace a b n)) = b"
proof -
  have l: "length (np_linspace a b n) = n" by (rule length_np_linspace)
  have a: "a \<in> set (np_linspace a b n)"
    using np_linspace_hd[OF assms(1), of a b] l assms(1)
    by (metis nth_mem less_le_trans zero_less_numeral)
  have "n - 1 < n" using assms(1) by simp
  then have b: "b \<in> set (np_linspace a b n)"
    using np_linspace_last[OF assms(1), of a b] l by (metis nth_mem)
  show "Min (set (np_linspace a b n)) = a"
  proof (rule Min_eqI)
    show "finite (set (np_linspace a b n))" by simp
    show "a \<in> set (np_linspace a b n)" by (rule a)
    fix y assume "y \<in> set (np_linspace a b n)"
    then obtain k where "k < n" "y = np_linspace a b n ! k" using l by (auto simp: in_set_conv_nth)
    with np_linspace_bounds(1)[OF assms(1) _ assms(2)] show "a \<le> y" by simp
  qed
  show "Max (set (np_linspace a b n)) = b"
  proof (rule Max_eqI)
    show "finite (set (np_linspace a b n))" by simp
    show "b \<in> set (np_linspace a b n)" by (rule b)
    fix y assume "y \<in> set (np_linspace a b n)"
    then obtain k where "k < n" "y = np_linspace a b n ! k" using l by (auto simp: in_set_conv_nth)
    with np_linspace_bounds(2)[OF assms(1) _ assms(2)] show "y \<le> b" by simp
  qed
qed

lemma valid_axis:
  assumes v: "valid_config inp outs" and i: "i < length inp"
  shows "2 \<le> length (inp ! i)" and "sorted_wrt (<) (inp ! i)" and "2 \<le> outs ! i"
    and "out_axes inp outs ! i = np_linspace (hd (inp ! i)) (last (inp ! i)) (nat (outs ! i))"
    and "lower_axes inp outs ! i = map (lower_edge (inp ! i)) (out_axes inp outs ! i)"
    and "upper_axes inp outs ! i = map (norm_distance (inp ! i)) (out_axes inp outs ! i)"
    and "hd (inp ! i) = inp ! i ! 0" and "last (inp ! i) = inp ! i ! (length (inp ! i) - 1)"
    and "hd (inp ! i) < last (inp ! i)"
proof -
  have len: "length outs = length inp" using v by (simp add: valid_config_def)
  show p2: "2 \<le> length (inp ! i)" and ps: "sorted_wrt (<) (inp ! i)" and "2 \<le> outs ! i"
    using v i len by (simp_all add: valid_config_def list_all_length)
  show "out_axes inp outs ! i = np_linspace (hd (inp ! i)) (last (inp ! i)) (nat (outs ! i))"
    using i len by (simp add: out_axes_def)
  have lo: "length (out_axes inp outs) = length inp" using len by (rule length_out_axes)
  show "lower_axes inp outs ! i = map (lower_edge (inp ! i)) (out_axes inp outs ! i)"
    using i lo by (simp add: lower_axes_def)
  show "upper_axes inp outs ! i = map (norm_distance (inp ! i)) (out_axes inp outs ! i)"
    using i lo by (simp add: upper_axes_def)
  have ne: "inp ! i \<noteq> []" using p2 by auto
  show h: "hd (inp ! i) = inp ! i ! 0" using ne by (simp add: hd_conv_nth)
  show l: "last (inp ! i) = inp ! i ! (length (inp ! i) - 1)" using ne by (simp add: last_conv_nth)
  have "inp ! i ! 0 < inp ! i ! (length (inp ! i) - 1)"
    using ps p2 by (simp add: sorted_wrt_iff_nth_less)
  then show "hd (inp ! i) < last (inp ! i)" using h l by simp
qed

lemma built_fancy_range:
  assumes v: "valid_config inp outs" and i: "i < length inp"
    and m: "(k, inds) \<in> set (fancy_inds_all (built inp outs))" and x: "x \<in> set (inds ! i)"
  shows "0 \<le> x \<and> x \<le> int (length (inp ! i)) - 1"
proof -
  let ?L = "product_lists (lower_axes inp outs)"
  from m have k: "k \<in> set (edge_keys (length inp))"
    and inds: "inds = map (\<lambda>(j, a). map (\<lambda>x. x + int j) a)
                 (zip k (map (\<lambda>i. map (\<lambda>row. row ! i) ?L) [0..<length inp]))"
    by (auto simp: built_def)
  have lk: "length k = length inp" and jk: "\<And>j. j \<in> set k \<Longrightarrow> j < 2"
    using edge_keys_mem[OF k] by auto
  have "inds ! i = map (\<lambda>x. x + int (k ! i)) (map (\<lambda>row. row ! i) ?L)"
    unfolding inds using i lk by simp
  with x obtain row where row: "row \<in> set ?L" and xe: "x = row ! i + int (k ! i)" by auto
  have "k ! i < 2" using jk lk i by simp
  with lower_rows_range(2)[OF v row i] xe show ?thesis by simp
qed

text \<open>
  C7: after a construction that succeeded, for every axis \<open>i\<close> the smallest and the
  largest generated output coordinate are the smallest and the largest input coordinate;
  every stored gather index of that axis lies in \<open>[0, len(axis i) - 1]\<close>; every cell
  width that a normalised distance is divided by is positive; and a call on any grid of
  the stored shape returns a result.
\<close>

theorem no_extrapolation:
  assumes "resampler_init inp outs = Inr r" and "i < length inp"
  shows "Min (set (out_points r ! i)) = Min (set (inp ! i))
         \<and> Max (set (out_points r ! i)) = Max (set (inp ! i))
         \<and> (\<forall>(k, inds) \<in> set (fancy_inds_all r). \<forall>x \<in> set (inds ! i).
               0 \<le> x \<and> x \<le> int (length (inp ! i)) - 1)
         \<and> (\<forall>j \<in> set (lower_edge_inds r ! i). 0 < inp ! i ! Suc (nat j) - inp ! i ! nat j)
         \<and> (\<forall>g::ndarray. shape g = in_shape r \<longrightarrow> (\<exists>out. resampler_call r g = Inr (out_points r, out)))"
proof -
  have v: "valid_config inp outs" and r: "r = built inp outs"
    using assms(1) by (simp_all add: init_Inr_iff)
  note ax = valid_axis[OF v assms(2)]
  have ne: "inp ! i \<noteq> []" using ax(1) by auto
  have n2: "2 \<le> nat (outs ! i)" using ax(3) by simp
  have op: "out_points r ! i = np_linspace (hd (inp ! i)) (last (inp ! i)) (nat (outs ! i))"
    unfolding r using ax(4) by (simp add: built_def)
  have hl: "hd (inp ! i) \<le> last (inp ! i)" using ax(9) by simp
  have 1: "Min (set (out_points r ! i)) = Min (set (inp ! i))"
    unfolding op linspace_Min_Max(1)[OF n2 hl] ascending_Min_Max(1)[OF ax(2) ne] ..
  have 2: "Max (set (out_points r ! i)) = Max (set (inp ! i))"
    unfolding op linspace_Min_Max(2)[OF n2 hl] ascending_Min_Max(2)[OF ax(2) ne] ..
  have 3: "\<forall>(k, inds) \<in> set (fancy_inds_all r). \<forall>x \<in> set (inds ! i).
               0 \<le> x \<and> x \<le> int (length (inp ! i)) - 1"
    unfolding r using built_fancy_range[OF v assms(2)] by blast
  have 4: "\<forall>j \<in> set (lower_edge_inds r ! i). 0 < inp ! i ! Suc (nat j) - inp ! i ! nat j"
  proof
    fix j assume "j \<in> set (lower_edge_inds r ! i)"
    then obtain x where j: "j = lower_edge (inp ! i) x"
      unfolding r using ax(5) by (auto simp: built_def)
    have "Suc (nat j) < length (inp ! i)"
      using lower_edge_range[OF ax(1), of x] ax(1) j by linarith
    then have "inp ! i ! nat j < inp ! i ! Suc (nat j)"
      using ax(2) by (simp add: sorted_wrt_iff_nth_less)
    then show "0 < inp ! i ! Suc (nat j) - inp ! i ! nat j" by simp
  qed
  have 5: "\<forall>g::ndarray. shape g = in_shape r \<longrightarrow> (\<exists>out. resampler_call r g = Inr (out_points r, out))"
  proof (intro allI impI)
    fix g :: ndarray assume "shape g = in_shape r"
    then have sh: "shape g = map length inp" by (simp add: r built_def)
    show "\<exists>out. resampler_call r g = Inr (out_points r, out)"
      unfolding r call_built[OF v sh] by (simp add: built_def)
  qed
  from 1 2 3 4 5 show ?thesis by blast
qed

theorem no_extrapolation_witness:
  "resampler_init [[0, 10, 20]] [5] = Inr resampler_1d \<and> (0::nat) < length [[0, 10, 20 :: real]]
   \<and> Min (set (out_points resampler_1d ! 0)) = Min (set ([[0, 10, 20]] ! 0))
   \<and> Max (set (out_points resampler_1d ! 0)) = Max (set ([[0, 10, 20]] ! 0))
   \<and> (\<exists>out. resampler_call resampler_1d \<lparr>shape = [3], data = [0, 100, 0]\<rparr>
              = Inr (out_points resampler_1d, out))"
proof -
  have "shape \<lparr>shape = [3], data = [0, 100, 0]\<rparr> = in_shape resampler_1d"
    by (simp add: resampler_1d_def)
  with no_extrapolation[OF init_1d, of 0] init_1d show ?thesis by simp
qed

subsection \<open>Convex combination\<close>

lemma built_gathered:
  assumes v: "valid_config inp outs" and k: "k \<in> set (edge_keys (length inp))"
    and t: "t < nat (prod_list outs)"
  shows "gathered (built inp outs) g k t
         = corner_value g k (product_lists (lower_axes inp outs) ! t)"
proof -
  let ?L = "product_lists (lower_axes inp outs)"
  let ?c = "map (\<lambda>(j, a). map (\<lambda>x. x + int j) a)
              (zip k (map (\<lambda>i. map (\<lambda>row. row ! i) ?L) [0..<length inp]))"
  have lk: "length k = length inp" using edge_keys_mem[OF k] by simp
  have tl: "t < length ?L" using t valid_total(1)[OF v] by simp
  have m: "map_of (fancy_inds_all (built inp outs)) k = Some ?c"
    unfolding built_def using k by (simp add: map_of_keys[where f = "\<lambda>all_j. map (\<lambda>(j, a). map (\<lambda>x. x + int j) a)
              (zip all_j (map (\<lambda>i. map (\<lambda>row. row ! i) ?L) [0..<length inp]))"])
  have e: "map (\<lambda>col. col ! t) ?c = edge_index k (?L ! t)"
    using lk lower_rows_range(1)[OF v] tl by (rule fancy_cols_row)
  have "map (\<lambda>col. nat (col ! t)) ?c = map nat (map (\<lambda>col. col ! t) ?c)"
    by (simp only: map_map o_def)
  then have "map (\<lambda>col. nat (col ! t)) ?c = map nat (edge_index k (?L ! t))"
    by (simp only: e)
  then show ?thesis unfolding gathered_def m corner_value_def by simp
qed

lemma corner_in_field:
  assumes v: "valid_config inp outs" and sh: "shape g = map length inp" and ok: "ndarray_ok g"
    and k: "k \<in> set (edge_keys (length inp))"
    and row: "row \<in> set (product_lists (lower_axes inp outs))"
  shows "corner_value g k row \<in> set (data g)"
proof -
  have lk: "length k = length inp" and jk: "\<And>j. j \<in> set k \<Longrightarrow> j < 2"
    using edge_keys_mem[OF k] by auto
  have lr: "length row = length inp" using lower_rows_range(1)[OF v row] .
  have "ravel_multi_index (shape g) (map nat (edge_index k row)) < prod_list (shape g)"
  proof (rule ravel_less)
    show "length (map nat (edge_index k row)) = length (shape g)"
      using lk lr sh by (simp add: edge_index_def)
    fix i assume "i < length (shape g)"
    then have i: "i < length inp" using sh by simp
    have "k ! i < 2" using jk lk i by simp
    moreover have "map nat (edge_index k row) ! i = nat (row ! i + int (k ! i))"
      using i lk lr by (simp add: edge_index_def)
    moreover have "shape g ! i = length (inp ! i)" using sh i by simp
    ultimately show "map nat (edge_index k row) ! i < shape g ! i"
      using lower_rows_range(2)[OF v row i] by linarith
  qed
  then show ?thesis using ok by (simp add: corner_value_def ndarray_ok_def)
qed

lemma built_call_nth:
  assumes v: "valid_config inp outs" and sh: "shape g = map length inp"
    and t: "t < nat (prod_list outs)"
  shows "\<exists>out. resampler_call (built inp outs) g = Inr (out_axes inp outs, out)
           \<and> data out ! t
             = (\<Sum>k \<leftarrow> edge_keys (length inp).
                  corner_value g k (product_lists (lower_axes inp outs) ! t)
                  * edge_weight k (product_lists (upper_axes inp outs) ! t))"
  unfolding call_built[OF v sh] using t by simp

lemma built_weighted_sum:
  assumes v: "valid_config inp outs" and t: "t < nat (prod_list outs)"
  shows "(\<Sum>(k, w) \<leftarrow> weights (built inp outs). gathered (built inp outs) g k t * w ! t)
         = (\<Sum>k \<leftarrow> edge_keys (length inp).
              corner_value g k (product_lists (lower_axes inp outs) ! t)
              * edge_weight k (product_lists (upper_axes inp outs) ! t))"
proof -
  let ?U = "product_lists (upper_axes inp outs)"
  have tu: "t < length ?U" using t valid_total(2)[OF v] by simp
  have "(\<Sum>(k, w) \<leftarrow> weights (built inp outs). gathered (built inp outs) g k t * w ! t)
        = (\<Sum>k \<leftarrow> edge_keys (length inp).
             gathered (built inp outs) g k t * map (edge_weight k) ?U ! t)"
    by (simp add: built_def o_def)
  also have "\<dots> = (\<Sum>k \<leftarrow> edge_keys (length inp).
              corner_value g k (product_lists (lower_axes inp outs) ! t) * edge_weight k (?U ! t))"
    using tu by (intro arg_cong[where f = sum_list] map_cong refl)
                (simp add: built_gathered[OF v _ t])
  finally show ?thesis .
qed

lemma call_weighted_sum:
  assumes "resampler_init inp outs = Inr r" and "shape g = in_shape r"
    and "t < nat (prod_list outs)"
  shows "\<exists>out. resampler_call r g = Inr (out_points r, out)
           \<and> data out ! t = (\<Sum>(k, w) \<leftarrow> weights r. gathered r g k t * w ! t)
           \<and> (\<forall>(k, w) \<in> set (weights r). 0 \<le> w ! t)
           \<and> (\<Sum>(k, w) \<leftarrow> weights r. w ! t) = 1
           \<and> Min ((\<lambda>(k, w). gathered r g k t) ` set (weights r)) \<le> data out ! t
           \<and> data out ! t \<le> Max ((\<lambda>(k, w). gathered r g k t) ` set (weights r))
           \<and> (ndarray_ok g \<longrightarrow> (\<forall>(k, w) \<in> set (weights r). gathered r g k t \<in> set (data g)))
           \<and> (ndarray_ok g \<and> (\<forall>x \<in> set (data g). 0 \<le> x) \<longrightarrow> 0 \<le> data out ! t)"
proof -
  have v: "valid_config inp outs" and r: "r = built inp outs"
    using assms(1) by (simp_all add: init_Inr_iff)
  have sh: "shape g = map length inp" using assms(2) r by (simp add: built_def)
  note t = assms(3)
  let ?K = "edge_keys (length inp)"
  let ?L = "product_lists (lower_axes inp outs)"
  let ?U = "product_lists (upper_axes inp outs)"
  let ?c = "\<lambda>k. corner_value g k (?L ! t)"
  let ?w = "\<lambda>k. edge_weight k (?U ! t)"
  have tl: "?L ! t \<in> set ?L" and tu: "?U ! t \<in> set ?U"
    using t valid_total[OF v] by simp_all
  have lu: "length (?U ! t) = length inp" using upper_rows_range(1)[OF v tu] .
  obtain out where call: "resampler_call r g = Inr (out_points r, out)"
    and val: "data out ! t = (\<Sum>k \<leftarrow> ?K. ?c k * ?w k)"
    using built_call_nth[OF v sh t] unfolding r by (auto simp: built_def)
  have ws: "weights r = map (\<lambda>k. (k, map (edge_weight k) ?U)) ?K"
    by (simp add: r built_def)
  have wnth: "map (edge_weight k) ?U ! t = ?w k" for k
    using t valid_total(2)[OF v] by simp
  have g: "gathered r g k t = ?c k" if "k \<in> set ?K" for k
    unfolding r using v that t by (rule built_gathered)
  have 1: "data out ! t = (\<Sum>(k, w) \<leftarrow> weights r. gathered r g k t * w ! t)"
    unfolding val r using built_weighted_sum[OF v t, of g] by simp
  have wpos: "0 \<le> ?w k" if "k \<in> set ?K" for k
  proof (rule edge_weight_nonneg)
    show "\<And>j. j \<in> set k \<Longrightarrow> j < 2" using edge_keys_mem[OF that] by simp
    fix x assume "x \<in> set (?U ! t)"
    then obtain i where "i < length inp" "x = ?U ! t ! i" using lu by (auto simp: in_set_conv_nth)
    with upper_rows_range(2)[OF v tu] show "0 \<le> x \<and> x \<le> 1" by simp
  qed
  have 2: "\<forall>(k, w) \<in> set (weights r). 0 \<le> w ! t"
    unfolding ws using wpos wnth by auto
  have wsum: "(\<Sum>k \<leftarrow> ?K. ?w k) = 1" using edge_weights_sum[of "?U ! t"] lu by simp
  have 3: "(\<Sum>(k, w) \<leftarrow> weights r. w ! t) = 1"
    unfolding r using v t by (rule built_weights_sum)
  have img: "(\<lambda>(k, w). gathered r g k t) ` set (weights r) = ?c ` set ?K"
    unfolding ws using g by (auto simp: image_iff)
  have kne: "set ?K \<noteq> {}" using length_edge_keys[of "length inp"] by auto
  have 4: "Min (?c ` set ?K) \<le> data out ! t" unfolding val
    by (rule convex_lower[OF wpos wsum]) simp_all
  have 5: "data out ! t \<le> Max (?c ` set ?K)" unfolding val
    by (rule convex_upper[OF wpos wsum]) simp_all
  have 6: "\<forall>(k, w) \<in> set (weights r). gathered r g k t \<in> set (data g)" if ok: "ndarray_ok g"
    unfolding ws using g corner_in_field[OF v sh ok _ tl] by auto
  have 7: "0 \<le> data out ! t" if ok: "ndarray_ok g" and nn: "\<forall>x \<in> set (data g). 0 \<le> x"
    unfolding val
  proof (rule convex_lower[OF wpos wsum])
    fix k assume "k \<in> set ?K"
    then have "?c k \<in> set (data g)" using corner_in_field[OF v sh ok _ tl] by simp
    with nn show "0 \<le> ?c k" by simp
  qed simp_all
  from call 1 2 3 4 5 6 7 show ?thesis unfolding img by blast
qed

lemma call_1d_negative:
  "resampler_call resampler_1d \<lparr>shape = [3], data = [0, - 100, 0]\<rparr>
   = Inr ([[0, 5, 10, 15, 20]], \<lparr>shape = [5], data = [0, - 50, - 100, - 50, 0]\<rparr>)"
  unfolding resampler_1d_def by code_simp

subsection \<open>The flattening order\<close>

lemma rows_at_multi_index:
  assumes v: "valid_config inp outs" and li: "length idx = length inp"
    and rng: "\<And>i. i < length inp \<Longrightarrow> idx ! i < nat (outs ! i)"
  defines "t \<equiv> ravel_multi_index (map nat outs) idx"
  defines "vs \<equiv> map (\<lambda>(a, i). a ! i) (zip (out_axes inp outs) idx)"
  shows "t < nat (prod_list outs)"
    and "product_lists (lower_axes inp outs) ! t = map (\<lambda>(p, v). lower_edge p v) (zip inp vs)"
    and "product_lists (upper_axes inp outs) ! t = map (\<lambda>(p, v). norm_distance p v) (zip inp vs)"
proof -
  have len: "length outs = length inp" using v by (simp add: valid_config_def)
  have lo: "length (out_axes inp outs) = length inp" using len by (rule length_out_axes)
  have ll: "length (lower_axes inp outs) = length inp" "length (upper_axes inp outs) = length inp"
    using lo by (simp_all add: lower_axes_def upper_axes_def)
  note ml = valid_axes_lengths[OF v]
  have "\<And>n. n \<in> set outs \<Longrightarrow> 0 \<le> n"
    using v by (fastforce simp: valid_config_def list_all_iff)
  then have pn: "prod_list (map nat outs) = nat (prod_list outs)" by (simp add: nat_prod_list)
  have "ravel_multi_index (map nat outs) idx < prod_list (map nat outs)"
    using li len rng by (intro ravel_less) simp_all
  then show "t < nat (prod_list outs)" unfolding t_def pn .
  have lv: "length vs = length inp" using lo li by (simp add: vs_def)
  have vi: "vs ! i = out_axes inp outs ! i ! (idx ! i)" if "i < length inp" for i
    using that lo li by (simp add: vs_def)
  have il: "idx ! i < length (out_axes inp outs ! i)" if "i < length inp" for i
  proof -
    have "length (out_axes inp outs ! i) = map length (out_axes inp outs) ! i"
      using that lo by simp
    also have "\<dots> = nat (outs ! i)" unfolding ml(1) using that len by simp
    finally show ?thesis using rng[OF that] by simp
  qed
  have "product_lists (lower_axes inp outs) ! ravel_multi_index (map length (lower_axes inp outs)) idx
        = map (\<lambda>(xs, i). xs ! i) (zip (lower_axes inp outs) idx)"
  proof (rule nth_product_lists)
    show "length idx = length (lower_axes inp outs)" using li ll by simp
    fix k assume "k < length (lower_axes inp outs)"
    then have k: "k < length inp" using ll by simp
    have "length (lower_axes inp outs ! k) = map length (lower_axes inp outs) ! k"
      using k ll by simp
    also have "\<dots> = nat (outs ! k)" unfolding ml(2) using k len by simp
    finally show "idx ! k < length (lower_axes inp outs ! k)" using rng[OF k] by simp
  qed
  also have "map (\<lambda>(xs, i). xs ! i) (zip (lower_axes inp outs) idx)
             = map (\<lambda>(p, v). lower_edge p v) (zip inp vs)"
  proof (rule nth_equalityI)
    show "length (map (\<lambda>(xs, i). xs ! i) (zip (lower_axes inp outs) idx))
          = length (map (\<lambda>(p, v). lower_edge p v) (zip inp vs))"
      using ll li lv by simp
    fix i assume "i < length (map (\<lambda>(xs, i). xs ! i) (zip (lower_axes inp outs) idx))"
    then have i: "i < length inp" using ll li by simp
    have "lower_axes inp outs ! i = map (lower_edge (inp ! i)) (out_axes inp outs ! i)"
      using i lo by (simp add: lower_axes_def)
    then show "map (\<lambda>(xs, i). xs ! i) (zip (lower_axes inp outs) idx) ! i
               = map (\<lambda>(p, v). lower_edge p v) (zip inp vs) ! i"
      using i ll li lv il[OF i] vi[OF i] by simp
  qed
  finally show "product_lists (lower_axes inp outs) ! t
                = map (\<lambda>(p, v). lower_edge p v) (zip inp vs)"
    unfolding t_def ml(2) .
  have "product_lists (upper_axes inp outs) ! ravel_multi_index (map length (upper_axes inp outs)) idx
        = map (\<lambda>(xs, i). xs ! i) (zip (upper_axes inp outs) idx)"
  proof (rule nth_product_lists)
    show "length idx = length (upper_axes inp outs)" using li ll by simp
    fix k assume "k < length (upper_axes inp outs)"
    then have k: "k < length inp" using ll by simp
    have "length (upper_axes inp outs ! k) = map length (upper_axes inp outs) ! k"
      using k ll by simp
    also have "\<dots> = nat (outs ! k)" unfolding ml(3) using k len by simp
    finally show "idx ! k < length (upper_axes inp outs ! k)" using rng[OF k] by simp
  qed
  also have "map (\<lambda>(xs, i). xs ! i) (zip (upper_axes inp outs) idx)
             = map (\<lambda>(p, v). norm_distance p v) (zip inp vs)"
  proof (rule nth_equalityI)
    show "length (map (\<lambda>(xs, i). xs ! i) (zip (upper_axes inp outs) idx))
          = length (map (\<lambda>(p, v). norm_distance p v) (zip inp vs))"
      using ll li lv by simp
    fix i assume "i < length (map (\<lambda>(xs, i). xs ! i) (zip (upper_axes inp outs) idx))"
    then have i: "i < length inp" using ll li by simp
    have "upper_axes inp outs ! i = map (norm_distance (inp ! i)) (out_axes inp outs ! i)"
      using i lo by (simp add: upper_axes_def)
    then show "map (\<lambda>(xs, i). xs ! i) (zip (upper_axes inp outs) idx) ! i
               = map (\<lambda>(p, v). norm_distance p v) (zip inp vs) ! i"
      using i ll li lv il[OF i] vi[OF i] by simp
  qed
  finally show "product_lists (upper_axes inp outs) ! t
                = map (\<lambda>(p, v). norm_distance p v) (zip inp vs)"
    unfolding t_def ml(3) .
qed

lemma output_at_multi_index:
  assumes v: "valid_config inp outs" and sh: "shape g = map length inp"
    and li: "length idx = length inp"
    and rng: "\<And>i. i < length inp \<Longrightarrow> idx ! i < nat (outs ! i)"
  shows "\<exists>out. resampler_call (built inp outs) g = Inr (out_axes inp outs, out)
           \<and> shape out = map nat outs
           \<and> data out ! ravel_multi_index (map nat outs) idx
             = interp_point inp g (map (\<lambda>(a, i). a ! i) (zip (out_axes inp outs) idx))
           \<and> nd_item out (map int idx)
             = Inr (interp_point inp g (map (\<lambda>(a, i). a ! i) (zip (out_axes inp outs) idx)))"
proof -
  let ?t = "ravel_multi_index (map nat outs) idx"
  let ?vs = "map (\<lambda>(a, i). a ! i) (zip (out_axes inp outs) idx)"
  let ?out = "\<lparr>shape = map nat outs,
               data = map (\<lambda>t. \<Sum>k \<leftarrow> edge_keys (length inp).
                                 corner_value g k (product_lists (lower_axes inp outs) ! t)
                                 * edge_weight k (product_lists (upper_axes inp outs) ! t))
                          [0..<nat (prod_list outs)]\<rparr>"
  note rows = rows_at_multi_index[OF v li rng]
  have len: "length outs = length inp" using v by (simp add: valid_config_def)
  have d: "data ?out ! ?t = interp_point inp g ?vs"
    using rows(1) by (simp add: rows(2,3) interp_point_def)
  have "nd_item ?out (map int idx)
        = Inr (data ?out ! ravel_multi_index (shape ?out) (map nat (map int idx)))"
  proof (rule nd_item_in_range)
    show "length (map int idx) = length (shape ?out)" using li len by simp
    fix i assume "i < length (map int idx)"
    then have i: "i < length inp" using li by simp
    have a: "map int idx ! i = int (idx ! i)" using i li by simp
    have b: "shape ?out ! i = nat (outs ! i)" using i len by simp
    have c: "int (idx ! i) < int (nat (outs ! i))"
      using rng[OF i] by (simp only: of_nat_less_iff)
    show "0 \<le> map int idx ! i \<and> map int idx ! i < int (shape ?out ! i)"
      unfolding a b using c by (simp only: of_nat_0_le_iff simp_thms)
  qed
  also have "map nat (map int idx) = idx" by (simp add: o_def)
  finally have n: "nd_item ?out (map int idx) = Inr (interp_point inp g ?vs)"
    using d by simp
  show ?thesis
    using call_built[OF v sh] d n by (intro exI[of _ ?out]) simp
qed

text \<open>
  C8: for a non-empty list of non-empty arrays, \<open>_cartesian_prod\<close> returns one row per
  combination: the number of rows is the product of the lengths, every row has one column
  per array, and the combination that takes element \<open>idx[k]\<close> of array \<open>k\<close> is the row
  at the row-major position of \<open>idx\<close>, so that running through the index tuples with the
  last index fastest runs through the rows in order. The same order is the one of the
  flat output: after a construction that succeeded, the element of the reshaped output
  array at a multi-index \<open>pos\<close> is the interpolant at the output coordinates that \<open>pos\<close>
  selects on each axis.
\<close>

theorem cartesian_prod_row_major:
  "(arrays \<noteq> [] \<and> [] \<notin> set arrays \<longrightarrow>
      (\<exists>rows. cartesian_prod arrays = Inr rows
         \<and> length rows = prod_list (map length arrays)
         \<and> (\<forall>row \<in> set rows. length row = length arrays)
         \<and> (\<forall>idx. length idx = length arrays \<and> (\<forall>k < length arrays. idx ! k < length (arrays ! k))
               \<longrightarrow> ravel_multi_index (map length arrays) idx < length rows
                   \<and> rows ! ravel_multi_index (map length arrays) idx
                     = map (\<lambda>(a, i). a ! i) (zip arrays idx))
         \<and> map (ravel_multi_index (map length arrays))
               (product_lists (map (\<lambda>a. [0..<length a]) arrays)) = [0..<length rows]))
   \<and> (resampler_init inp outs = Inr r \<and> shape g = in_shape r \<and> length pos = length inp
        \<and> (\<forall>i < length inp. pos ! i < nat (outs ! i)) \<longrightarrow>
      (\<exists>out. resampler_call r g = Inr (out_points r, out)
         \<and> shape out = map nat outs
         \<and> nd_item out (map int pos)
           = Inr (interp_point inp g (map (\<lambda>(a, i). a ! i) (zip (out_points r) pos)))))"
proof (intro conjI impI)
  assume a: "arrays \<noteq> [] \<and> [] \<notin> set arrays"
  let ?rows = "product_lists arrays"
  have 1: "cartesian_prod arrays = Inr ?rows" using a by (simp add: cartesian_prod_product_lists)
  have 2: "length ?rows = prod_list (map length arrays)" by (rule length_product_lists')
  have 3: "\<forall>row \<in> set ?rows. length row = length arrays"
    by (simp add: product_lists_row_length)
  have 4: "\<forall>idx. length idx = length arrays \<and> (\<forall>k < length arrays. idx ! k < length (arrays ! k))
               \<longrightarrow> ravel_multi_index (map length arrays) idx < length ?rows
                   \<and> ?rows ! ravel_multi_index (map length arrays) idx
                     = map (\<lambda>(a, i). a ! i) (zip arrays idx)"
  proof (intro allI impI)
    fix idx :: "nat list"
    assume h: "length idx = length arrays \<and> (\<forall>k < length arrays. idx ! k < length (arrays ! k))"
    have "ravel_multi_index (map length arrays) idx < prod_list (map length arrays)"
      using h by (intro ravel_less) simp_all
    moreover have "?rows ! ravel_multi_index (map length arrays) idx
                   = map (\<lambda>(a, i). a ! i) (zip arrays idx)"
      using h by (intro nth_product_lists) simp_all
    ultimately show "ravel_multi_index (map length arrays) idx < length ?rows
                   \<and> ?rows ! ravel_multi_index (map length arrays) idx
                     = map (\<lambda>(a, i). a ! i) (zip arrays idx)"
      using 2 by simp
  qed
  have 5: "map (ravel_multi_index (map length arrays))
             (product_lists (map (\<lambda>a. [0..<length a]) arrays)) = [0..<length ?rows]"
  proof -
    have "product_lists (map (\<lambda>a. [0..<length a]) arrays)
          = product_lists (map (\<lambda>n. [0..<n]) (map length arrays))"
      by (simp add: o_def)
    then show ?thesis unfolding 2 by (simp only: ravel_product_upt)
  qed
  from 1 2 3 4 5
  show "\<exists>rows. cartesian_prod arrays = Inr rows
         \<and> length rows = prod_list (map length arrays)
         \<and> (\<forall>row \<in> set rows. length row = length arrays)
         \<and> (\<forall>idx. length idx = length arrays \<and> (\<forall>k < length arrays. idx ! k < length (arrays ! k))
               \<longrightarrow> ravel_multi_index (map length arrays) idx < length rows
                   \<and> rows ! ravel_multi_index (map length arrays) idx
                     = map (\<lambda>(a, i). a ! i) (zip arrays idx))
         \<and> map (ravel_multi_index (map length arrays))
               (product_lists (map (\<lambda>a. [0..<length a]) arrays)) = [0..<length rows]"
    by blast
next
  assume b: "resampler_init inp outs = Inr r \<and> shape g = in_shape r \<and> length pos = length inp
        \<and> (\<forall>i < length inp. pos ! i < nat (outs ! i))"
  then have v: "valid_config inp outs" and r: "r = built inp outs"
    by (simp_all add: init_Inr_iff)
  have sh: "shape g = map length inp" using b r by (simp add: built_def)
  have op: "out_points (built inp outs) = out_axes inp outs" by (simp add: built_def)
  have li: "length pos = length inp"
    and rng: "\<And>i. i < length inp \<Longrightarrow> pos ! i < nat (outs ! i)"
    using b by auto
  from output_at_multi_index[OF v sh li rng]
  obtain out where "resampler_call (built inp outs) g = Inr (out_axes inp outs, out)"
    and "shape out = map nat outs"
    and "nd_item out (map int pos)
         = Inr (interp_point inp g (map (\<lambda>(a, i). a ! i) (zip (out_axes inp outs) pos)))"
    by blast
  then show "\<exists>out. resampler_call r g = Inr (out_points r, out)
         \<and> shape out = map nat outs
         \<and> nd_item out (map int pos)
           = Inr (interp_point inp g (map (\<lambda>(a, i). a ! i) (zip (out_points r) pos)))"
    unfolding r op by blast
qed

lemma cartesian_prod_docstring:
  "cartesian_prod [[1, 2, 3], [4, 5], [6, 7 :: nat]]
   = Inr [[1, 4, 6], [1, 4, 7], [1, 5, 6], [1, 5, 7], [2, 4, 6], [2, 4, 7],
          [2, 5, 6], [2, 5, 7], [3, 4, 6], [3, 4, 7], [3, 5, 6], [3, 5, 7]]"
  by code_simp

theorem cartesian_prod_row_major_witness:
  "[[1, 2, 3], [4, 5], [6, 7 :: nat]] \<noteq> [] \<and> [] \<notin> set [[1, 2, 3], [4, 5], [6, 7 :: nat]]
   \<and> cartesian_prod [[1, 2, 3], [4, 5], [6, 7 :: nat]]
     = Inr [[1, 4, 6], [1, 4, 7], [1, 5, 6], [1, 5, 7], [2, 4, 6], [2, 4, 7],
            [2, 5, 6], [2, 5, 7], [3, 4, 6], [3, 4, 7], [3, 5, 6], [3, 5, 7]]
   \<and> ravel_multi_index (map length [[1, 2, 3], [4, 5], [6, 7 :: nat]]) [1, 0, 1] = 5
   \<and> [[1, 4, 6], [1, 4, 7], [1, 5, 6], [1, 5, 7], [2, 4, 6], [2, 4, 7],
       [2, 5, 6], [2, 5, 7], [3, 4, 6], [3, 4, 7], [3, 5, 6], [3, 5, 7 :: nat]] ! 5
     = map (\<lambda>(a, i). a ! i) (zip [[1, 2, 3], [4, 5], [6, 7]] [1, 0, 1])
   \<and> resampler_init [[0, 10, 20]] [5] = Inr resampler_1d
   \<and> shape \<lparr>shape = [3], data = [0, 100, 0]\<rparr> = in_shape resampler_1d
   \<and> resampler_call resampler_1d \<lparr>shape = [3], data = [0, 100, 0]\<rparr>
     = Inr (out_points resampler_1d, \<lparr>shape = [5], data = [0, 50, 100, 50, 0]\<rparr>)
   \<and> nd_item \<lparr>shape = [5], data = [0, 50, 100, 50, 0]\<rparr> (map int [3])
     = Inr (interp_point [[0, 10, 20]] \<lparr>shape = [3], data = [0, 100, 0]\<rparr>
              (map (\<lambda>(a, i). a ! i) (zip (out_points resampler_1d) [3])))"
proof -
  let ?A = "[[1, 2, 3], [4, 5], [6, 7 :: nat]]"
  let ?R = "[[1, 4, 6], [1, 4, 7], [1, 5, 6], [1, 5, 7], [2, 4, 6], [2, 4, 7],
            [2, 5, 6], [2, 5, 7], [3, 4, 6], [3, 4, 7], [3, 5, 6], [3, 5, 7 :: nat]]"
  let ?g = "\<lparr>shape = [3], data = [0, 100, 0]\<rparr>"
  have c1: "?A \<noteq> []" and c2: "[] \<notin> set ?A" by simp_all
  have i: "length [1, 0, 1 :: nat] = length ?A \<and> (\<forall>k < length ?A. [1, 0, 1] ! k < length (?A ! k))"
    by (simp add: less_Suc_eq all_conj_distrib numeral_3_eq_3)
  have c4: "ravel_multi_index (map length ?A) [1, 0, 1] = 5" by simp
  obtain rows where rows: "cartesian_prod ?A = Inr rows"
    and nth: "rows ! ravel_multi_index (map length ?A) [1, 0, 1]
              = map (\<lambda>(a, i). a ! i) (zip ?A [1, 0, 1])"
    using cartesian_prod_row_major[of ?A "[]" "[]" resampler_1d ?g "[]"] c1 c2 i by blast
  have c3: "cartesian_prod ?A = Inr ?R" by (rule cartesian_prod_docstring)
  have "rows = ?R" using rows c3 by simp
  then have c5: "?R ! 5 = map (\<lambda>(a, i). a ! i) (zip ?A [1, 0, 1])"
    using nth unfolding c4 by simp
  have c7: "shape ?g = in_shape resampler_1d" by (simp add: resampler_1d_def)
  have op: "out_points resampler_1d = [[0, 5, 10, 15, 20]]" by (simp add: resampler_1d_def)
  have p: "length [3 :: nat] = length [[0, 10, 20 :: real]]
           \<and> (\<forall>i < length [[0, 10, 20 :: real]]. [3 :: nat] ! i < nat ([5] ! i))" by simp
  obtain out where c: "resampler_call resampler_1d ?g = Inr (out_points resampler_1d, out)"
    and n: "nd_item out (map int [3])
            = Inr (interp_point [[0, 10, 20]] ?g
                     (map (\<lambda>(a, i). a ! i) (zip (out_points resampler_1d) [3])))"
    using cartesian_prod_row_major[of "[]" "[[0, 10, 20]]" "[5]" resampler_1d ?g "[3]"]
      init_1d c7 p by blast
  have o: "out = \<lparr>shape = [5], data = [0, 50, 100, 50, 0]\<rparr>" using c call_1d op by simp
  note c8 = c[unfolded o] and c9 = n[unfolded o]
  show ?thesis
    by (intro conjI) (fact c1 c2 c3 c4 c5 init_1d c7 c8 c9)+
qed

subsection \<open>Resampling onto the input grid\<close>

lemma init_same: "resampler_init [[0, 10, 20]] [3] = Inr resampler_same"
  unfolding resampler_same_def by code_simp

lemma interp_at_grid_point:
  assumes ax: "\<And>p. p \<in> set inp \<Longrightarrow> 2 \<le> length p \<and> sorted_wrt (<) p"
    and li: "length idx = length inp"
    and rng: "\<And>i. i < length inp \<Longrightarrow> idx ! i < length (inp ! i)"
  shows "interp_point inp g (map (\<lambda>(p, i). p ! i) (zip inp idx))
         = data g ! ravel_multi_index (shape g) idx"
proof -
  let ?vs = "map (\<lambda>(p, i). p ! i) (zip inp idx)"
  let ?l = "map (\<lambda>(p, v). lower_edge p v) (zip inp ?vs)"
  let ?u = "map (\<lambda>(p, v). norm_distance p v) (zip inp ?vs)"
  let ?b = "map (\<lambda>x. if x = 1 then 1 else 0 :: nat) ?u"
  have lu: "length ?u = length inp" and ll: "length ?l = length inp" using li by simp_all
  have li': "?l ! i = (if idx ! i = 0 then 0 else int (idx ! i) - 1)"
    and ui: "?u ! i = (if idx ! i = 0 then 0 else 1)" if i: "i < length inp" for i
  proof -
    have p: "2 \<le> length (inp ! i)" "sorted_wrt (<) (inp ! i)" using ax[of "inp ! i"] i by simp_all
    have "?l ! i = lower_edge (inp ! i) (inp ! i ! (idx ! i))" using i li by simp
    then show "?l ! i = (if idx ! i = 0 then 0 else int (idx ! i) - 1)"
      using lower_edge_grid_point(1)[OF p(2) p(1) rng[OF i]] by simp
    have "?u ! i = norm_distance (inp ! i) (inp ! i ! (idx ! i))" using i li by simp
    then show "?u ! i = (if idx ! i = 0 then 0 else 1)"
      using lower_edge_grid_point(2)[OF p(2) p(1) rng[OF i]] by simp
  qed
  have u01: "x = 0 \<or> x = 1" if "x \<in> set ?u" for x
  proof -
    from that obtain i where "i < length ?u" "x = ?u ! i" by (metis in_set_conv_nth)
    then have "i < length inp" "x = ?u ! i" using lu by simp_all
    with ui show ?thesis by auto
  qed
  have "interp_point inp g ?vs
        = (\<Sum>k \<leftarrow> edge_keys (length ?u). corner_value g k ?l * edge_weight k ?u)"
    unfolding interp_point_def lu ..
  also have "\<dots> = corner_value g ?b ?l"
    using u01 by (rule edge_sum_corner)
  finally have ip: "interp_point inp g ?vs = corner_value g ?b ?l" .
  have "map nat (edge_index ?b ?l) = idx"
  proof (rule nth_equalityI)
    show "length (map nat (edge_index ?b ?l)) = length idx" using li by (simp add: edge_index_def)
    fix i assume "i < length (map nat (edge_index ?b ?l))"
    then have i: "i < length inp" using li by (simp add: edge_index_def)
    have "edge_index ?b ?l ! i = ?l ! i + int (?b ! i)"
      using i li by (simp add: edge_index_def)
    also have "?b ! i = (if ?u ! i = 1 then 1 else 0)" using i li by simp
    finally have "edge_index ?b ?l ! i = int (idx ! i)"
      unfolding li'[OF i] ui[OF i] by simp
    then show "map nat (edge_index ?b ?l) ! i = idx ! i"
      using i li by (simp add: edge_index_def)
  qed
  then show ?thesis unfolding ip corner_value_def by simp
qed

lemma flat_position_multi_index:
  assumes "t < prod_list ns"
  shows "\<exists>idx. length idx = length ns \<and> (\<forall>i < length ns. idx ! i < ns ! i)
               \<and> ravel_multi_index ns idx = t"
proof -
  let ?P = "product_lists (map (\<lambda>n. [0..<n]) ns)"
  have m: "map (ravel_multi_index ns) ?P = [0..<prod_list ns]" by (rule ravel_product_upt)
  then have "length ?P = prod_list ns" by (metis length_map length_upt minus_nat.diff_0)
  with assms have tl: "t < length ?P" by simp
  have "ravel_multi_index ns (?P ! t) = map (ravel_multi_index ns) ?P ! t"
    using tl by simp
  also have "\<dots> = t" unfolding m using assms by simp
  finally have r: "ravel_multi_index ns (?P ! t) = t" .
  have "?P ! t \<in> set ?P" using tl by simp
  then have a: "list_all2 (\<lambda>x ys. x \<in> set ys) (?P ! t) (map (\<lambda>n. [0..<n]) ns)"
    by (simp add: product_lists_set)
  then have l: "length (?P ! t) = length ns" by (simp add: list_all2_lengthD)
  have "\<forall>i < length ns. ?P ! t ! i < ns ! i"
    using a l by (auto simp: list_all2_conv_all_nth)
  with l r show ?thesis by blast
qed

text \<open>
  C4: when the generated output coordinate arrays are the input coordinate arrays
  themselves, a call on a grid of the stored shape returns those arrays and the grid
  unchanged.
\<close>

theorem resample_same_grid:
  assumes "resampler_init inp outs = Inr r" and "out_points r = inp"
    and "shape g = in_shape r" and "ndarray_ok g"
  shows "resampler_call r g = Inr (inp, g)"
proof -
  have v: "valid_config inp outs" and r: "r = built inp outs"
    using assms(1) by (simp_all add: init_Inr_iff)
  have sh: "shape g = map length inp" using assms(3) r by (simp add: built_def)
  have oa: "out_axes inp outs = inp" using assms(2) r by (simp add: built_def)
  have len: "length outs = length inp" using v by (simp add: valid_config_def)
  have ax: "\<And>p. p \<in> set inp \<Longrightarrow> 2 \<le> length p \<and> sorted_wrt (<) p"
    using v by (simp add: valid_config_def list_all_iff)
  have no: "map nat outs = map length inp"
    using valid_axes_lengths(1)[OF v] unfolding oa by simp
  have "\<And>n. n \<in> set outs \<Longrightarrow> 0 \<le> n"
    using v by (fastforce simp: valid_config_def list_all_iff)
  then have pn: "nat (prod_list outs) = prod_list (map nat outs)" by (rule nat_prod_list)
  let ?N = "nat (prod_list outs)"
  let ?D = "map (\<lambda>t. \<Sum>k \<leftarrow> edge_keys (length inp).
                      corner_value g k (product_lists (lower_axes inp outs) ! t)
                      * edge_weight k (product_lists (upper_axes inp outs) ! t)) [0..<?N]"
  have lg: "length (data g) = ?N"
    using assms(4) sh no pn by (simp add: ndarray_ok_def)
  have "?D = data g"
  proof (rule nth_equalityI)
    show "length ?D = length (data g)" using lg by simp
    fix t assume "t < length ?D"
    then have t: "t < ?N" by simp
    then obtain idx where li: "length idx = length inp"
      and rng: "\<And>i. i < length inp \<Longrightarrow> idx ! i < nat (outs ! i)"
      and rv: "ravel_multi_index (map nat outs) idx = t"
      using flat_position_multi_index[of t "map nat outs"] pn len by auto
    have rng': "\<And>i. i < length inp \<Longrightarrow> idx ! i < length (inp ! i)"
    proof -
      fix i assume i: "i < length inp"
      have "map nat outs ! i = map length inp ! i" using no by simp
      then have "nat (outs ! i) = length (inp ! i)" using i len by simp
      with rng[OF i] show "idx ! i < length (inp ! i)" by simp
    qed
    note rows = rows_at_multi_index[OF v li rng, unfolded rv oa]
    have "?D ! t = interp_point inp g (map (\<lambda>(a, i). a ! i) (zip inp idx))"
      using t by (simp add: rows(2,3) interp_point_def)
    also have "\<dots> = data g ! ravel_multi_index (shape g) idx"
      using ax li rng' by (rule interp_at_grid_point)
    also have "\<dots> = data g ! t" unfolding sh no[symmetric] rv ..
    finally show "?D ! t = data g ! t" .
  qed
  then have "resampler_call r g = Inr (inp, \<lparr>shape = shape g, data = data g\<rparr>)"
    unfolding r call_built[OF v sh] oa using sh no by simp
  then show ?thesis by simp
qed

theorem resample_same_grid_witness:
  "resampler_init [[0, 10, 20]] [3] = Inr resampler_same
   \<and> out_points resampler_same = [[0, 10, 20]]
   \<and> shape \<lparr>shape = [3], data = [0, 100, 0]\<rparr> = in_shape resampler_same
   \<and> ndarray_ok \<lparr>shape = [3], data = [0, 100, 0]\<rparr>
   \<and> resampler_call resampler_same \<lparr>shape = [3], data = [0, 100, 0]\<rparr>
     = Inr ([[0, 10, 20]], \<lparr>shape = [3], data = [0, 100, 0]\<rparr>)"
proof -
  have a: "out_points resampler_same = [[0, 10, 20]]" by (simp add: resampler_same_def)
  have b: "shape \<lparr>shape = [3], data = [0, 100, 0]\<rparr> = in_shape resampler_same"
    by (simp add: resampler_same_def)
  have c: "ndarray_ok \<lparr>shape = [3], data = [0, 100, 0]\<rparr>" by (simp add: ndarray_ok_def)
  show ?thesis
    using resample_same_grid[OF init_same a b c] init_same a b c by (intro conjI)
qed

subsection \<open>The tables of one axis\<close>

lemma lower_edge_largest:
  assumes s: "sorted_wrt (<) p" and l: "2 \<le> length p" and lo: "p ! 0 < v"
    and hi: "v \<le> p ! (length p - 1)"
  shows "largest_index_lt p v (nat (lower_edge p v))"
proof -
  let ?c = "np_searchsorted p v"
  have c_le: "?c \<le> length p" by (rule searchsorted_le)
  have c_ne: "?c \<noteq> length p"
  proof
    assume "?c = length p"
    then have "length p - 1 < ?c" using l by simp
    then have "p ! (length p - 1) < v" by (rule searchsorted_below)
    with hi show False by simp
  qed
  have c_lt: "?c < length p" using c_le c_ne by simp
  have c0: "?c \<noteq> 0"
  proof
    assume "?c = 0"
    then have "v \<le> p ! 0" using searchsorted_at[of p v] c_lt by simp
    with lo show False by simp
  qed
  have j: "nat (lower_edge p v) = ?c - 1" using c_lt c0 l
    by (auto simp: lower_edge_def np_clip_def)
  have 1: "?c - 1 < length p" using c_lt by simp
  have 2: "p ! (?c - 1) < v" using c0 by (intro searchsorted_below) simp
  have 3: "k \<le> ?c - 1" if "k < length p" "p ! k < v" for k
  proof (rule ccontr)
    assume "\<not> k \<le> ?c - 1"
    then have "?c \<le> k" by simp
    with s have "v \<le> p ! k" using that(1) by (rule searchsorted_above)
    with that(2) show False by simp
  qed
  show ?thesis unfolding largest_index_lt_def j using 1 2 3 by blast
qed

text \<open>
  C1, as the code has it: after a construction that succeeded, the output coordinates of
  axis \<open>i\<close> are \<open>linspace(axis min, axis max, n_out)\<close>; for the output coordinate \<open>v\<close>
  at position \<open>t\<close> the stored lower edge index \<open>j\<close> is \<open>searchsorted(axis, v) - 1\<close>
  clipped into \<open>[0, len - 2]\<close>, which for \<open>v\<close> above the axis minimum is the largest
  index whose axis point is strictly below \<open>v\<close>; \<open>v\<close> lies in the cell
  \<open>[axis[j], axis[j+1]]\<close>, and the stored normalised distance is
  \<open>(v - axis[j]) / (axis[j+1] - axis[j])\<close>. At the axis minimum \<open>j = 0\<close> and the distance
  is 0; at the axis maximum \<open>j = len - 2\<close> and the distance is 1; at an axis point
  \<open>axis[k]\<close> with \<open>k > 0\<close> the index is \<open>k - 1\<close> and the distance is 1.
\<close>

theorem axis_precomputation:
  assumes "resampler_init inp outs = Inr r" and "i < length inp" and "t < nat (outs ! i)"
    and "p = inp ! i" and "v = out_points r ! i ! t"
    and "j = lower_edge_inds r ! i ! t" and "d = norm_distances r ! i ! t"
  shows "out_points r ! i = np_linspace (Min (set p)) (Max (set p)) (nat (outs ! i))
         \<and> length (lower_edge_inds r ! i) = nat (outs ! i)
         \<and> length (norm_distances r ! i) = nat (outs ! i)
         \<and> j = np_clip (int (np_searchsorted p v) - 1) 0 (int (length p) - 2)
         \<and> 0 \<le> j \<and> j \<le> int (length p) - 2
         \<and> (Min (set p) < v \<longrightarrow> largest_index_lt p v (nat j))
         \<and> p ! nat j \<le> v \<and> v \<le> p ! Suc (nat j)
         \<and> d = (v - p ! nat j) / (p ! Suc (nat j) - p ! nat j)
         \<and> (v = Min (set p) \<longrightarrow> j = 0 \<and> d = 0)
         \<and> (v = Max (set p) \<longrightarrow> j = int (length p) - 2 \<and> d = 1)
         \<and> (\<forall>k. 0 < k \<and> k < length p \<and> v = p ! k \<longrightarrow> j = int k - 1 \<and> d = 1)"
proof -
  have vc: "valid_config inp outs" and r: "r = built inp outs"
    using assms(1) by (simp_all add: init_Inr_iff)
  note ax = valid_axis[OF vc assms(2)]
  have p2: "2 \<le> length p" and ps: "sorted_wrt (<) p" using ax(1,2) assms(4) by simp_all
  have ne: "p \<noteq> []" using p2 by auto
  have mn: "Min (set p) = hd p" and mx: "Max (set p) = last p"
    using ascending_Min_Max[OF ps ne] by simp_all
  have h0: "hd p = p ! 0" and hl: "last p = p ! (length p - 1)"
    using ax(7,8) assms(4) by simp_all
  have n2: "2 \<le> nat (outs ! i)" using ax(3) by simp
  have op: "out_points r ! i = np_linspace (hd p) (last p) (nat (outs ! i))"
    unfolding r using ax(4) assms(4) by (simp add: built_def)
  have lo: "length (out_points r ! i) = nat (outs ! i)" unfolding op by (rule length_np_linspace)
  have li: "lower_edge_inds r ! i = map (lower_edge p) (out_points r ! i)"
    unfolding r using ax(5) assms(4) by (simp add: built_def)
  have ui: "norm_distances r ! i = map (norm_distance p) (out_points r ! i)"
    unfolding r using ax(6) assms(4) by (simp add: built_def)
  have j: "j = lower_edge p v" using assms(3,5,6) lo by (simp add: li)
  have d: "d = norm_distance p v" using assms(3,5,7) lo by (simp add: ui)
  have hle: "hd p \<le> last p" using ax(9) assms(4) by simp
  have vlo: "p ! 0 \<le> v" and vhi: "v \<le> p ! (length p - 1)"
    using np_linspace_bounds[OF n2 assms(3) hle] assms(5) op h0 hl by simp_all
  note br = lower_edge_bracket[OF ps p2 vlo vhi]
  have 1: "out_points r ! i = np_linspace (Min (set p)) (Max (set p)) (nat (outs ! i))"
    unfolding mn mx by (rule op)
  have 2: "length (lower_edge_inds r ! i) = nat (outs ! i)"
    and 3: "length (norm_distances r ! i) = nat (outs ! i)"
    using lo by (simp_all add: li ui)
  have 4: "j = np_clip (int (np_searchsorted p v) - 1) 0 (int (length p) - 2)"
    unfolding j lower_edge_def ..
  have 5: "0 \<le> j \<and> j \<le> int (length p) - 2" unfolding j by (rule lower_edge_range[OF p2])
  have 6: "Min (set p) < v \<longrightarrow> largest_index_lt p v (nat j)"
    unfolding j mn h0 using lower_edge_largest[OF ps p2 _ vhi] by blast
  have 7: "p ! nat j \<le> v \<and> v \<le> p ! Suc (nat j)" unfolding j using br(1,2) by simp
  have 8: "d = (v - p ! nat j) / (p ! Suc (nat j) - p ! nat j)"
    unfolding d j norm_distance_def Let_def ..
  have p0: "0 < length p" and pl: "length p - 1 < length p" using ne by simp_all
  have 9: "v = Min (set p) \<longrightarrow> j = 0 \<and> d = 0"
    unfolding mn h0 j d using lower_edge_grid_point[OF ps p2 p0] by auto
  have 10: "v = Max (set p) \<longrightarrow> j = int (length p) - 2 \<and> d = 1"
    unfolding mx hl j d using lower_edge_grid_point[OF ps p2 pl] p2 by auto
  have 11: "\<forall>k. 0 < k \<and> k < length p \<and> v = p ! k \<longrightarrow> j = int k - 1 \<and> d = 1"
    unfolding j d using lower_edge_grid_point[OF ps p2] by auto
  from 1 2 3 4 5 6 7 8 9 10 11 show ?thesis by blast
qed

theorem axis_precomputation_witness:
  "resampler_init [[0, 10, 20]] [5] = Inr resampler_1d
   \<and> (0::nat) < length [[0, 10, 20 :: real]] \<and> (2::nat) < nat ([5] ! 0)
   \<and> out_points resampler_1d ! 0 ! 2 = 10
   \<and> lower_edge_inds resampler_1d ! 0 ! 2 = 0
   \<and> norm_distances resampler_1d ! 0 ! 2 = 1
   \<and> out_points resampler_1d ! 0
     = np_linspace (Min (set [0, 10, 20])) (Max (set [0, 10, 20])) (nat ([5] ! 0))
   \<and> largest_index_lt [0, 10, 20] 10 (nat 0)
   \<and> [0, 10, 20] ! nat 0 \<le> (10::real) \<and> (10::real) \<le> [0, 10, 20] ! Suc (nat 0)
   \<and> (1::real) = (10 - [0, 10, 20] ! nat 0) / ([0, 10, 20] ! Suc (nat 0) - [0, 10, 20] ! nat 0)"
proof -
  have a: "(0::nat) < length [[0, 10, 20 :: real]]" and b: "(2::nat) < nat ([5] ! 0)" by simp_all
  have p: "[0, 10, 20 :: real] = [[0, 10, 20]] ! 0" by simp
  have v: "(10::real) = out_points resampler_1d ! 0 ! 2"
    and j: "(0::int) = lower_edge_inds resampler_1d ! 0 ! 2"
    and d: "(1::real) = norm_distances resampler_1d ! 0 ! 2"
    by (simp_all add: resampler_1d_def)
  have m: "Min (set [0, 10, 20 :: real]) < 10" by simp
  note th = axis_precomputation[OF init_1d a b p v j d]
  from th have 1: "out_points resampler_1d ! 0
     = np_linspace (Min (set [0, 10, 20])) (Max (set [0, 10, 20])) (nat ([5] ! 0))" by blast
  from th m have 2: "largest_index_lt [0, 10, 20] 10 (nat 0)" by blast
  from th have 3: "[0, 10, 20] ! nat 0 \<le> (10::real)" and 4: "(10::real) \<le> [0, 10, 20] ! Suc (nat 0)"
    and 5: "(1::real) = (10 - [0, 10, 20] ! nat 0) / ([0, 10, 20] ! Suc (nat 0) - [0, 10, 20] ! nat 0)"
    by blast+
  show ?thesis
    by (intro conjI) (fact init_1d a b v[symmetric] j[symmetric] d[symmetric] 1 2 3 4 5)+
qed

text \<open>
  C1 as the specification words it fails: for the axis \<open>[0, 10, 20]\<close> and 5 output
  points, the output coordinate at position 2 is 10; the largest index whose axis point
  is at most 10 is 1, which the clip leaves at 1, and the distance from that point is 0;
  the stored index is 0 and the stored distance is 1.
\<close>

theorem lower_edge_le_counterexample:
  "resampler_init [[0, 10, 20]] [5] = Inr resampler_1d
   \<and> out_points resampler_1d ! 0 ! 2 = 10
   \<and> largest_index_le [0, 10, 20] 10 1
   \<and> np_clip (int 1) 0 (int (length [0, 10, 20 :: real]) - 2) = 1
   \<and> lower_edge_inds resampler_1d ! 0 ! 2 \<noteq> np_clip (int 1) 0 (int (length [0, 10, 20 :: real]) - 2)
   \<and> lower_edge_inds resampler_1d ! 0 ! 2 = 0
   \<and> norm_distances resampler_1d ! 0 ! 2 \<noteq> (10 - [0, 10, 20] ! 1) / ([0, 10, 20] ! 2 - [0, 10, 20] ! 1)
   \<and> norm_distances resampler_1d ! 0 ! 2 = 1"
proof -
  have "largest_index_le [0, 10, 20] 10 1"
    by (simp add: largest_index_le_def less_Suc_eq numeral_3_eq_3 all_conj_distrib)
  then show ?thesis using init_1d by (simp add: resampler_1d_def np_clip_def)
qed

subsection \<open>The interpolated flux grids\<close>








subsection \<open>The outcomes of the construction\<close>

lemma cartesian_prod_Inl: "cartesian_prod arrays = Inl e \<Longrightarrow> e = IndexError"
proof (induction arrays)
  case Nil
  then show ?case by simp
next
  case (Cons a rest)
  then show ?case by (auto simp: Let_def split: if_splits sum.splits)
qed

lemma axis_precompute_Inl: "axis_precompute p_out p_in = Inl e \<Longrightarrow> e = IndexError"
  unfolding axis_precompute_def Let_def
  by (auto split: sum.splits dest: np_take_Inl)

lemma find_weights_Inl: "find_weights ws n = Inl e \<Longrightarrow> e = IndexError"
  unfolding find_weights_def by (auto split: sum.splits dest: cartesian_prod_Inl)

lemma init_Inl_after_checks:
  assumes "\<not> list_ex (\<lambda>p. list_ex (\<lambda>d. d \<le> 0) (np_diff p)) inp"
    and "length outs = length inp" and "\<not> list_ex (\<lambda>n_p. n_p < 2) outs"
    and "resampler_init inp outs = Inl e"
  shows "e = IndexError"
proof -
  let ?f = "\<lambda>(p, n_p). if p = [] then Inl IndexError
                          else Inr (np_linspace (hd p) (last p) (nat n_p))"
  let ?h = "\<lambda>(p_out, p_in). axis_precompute p_out p_in"
  show ?thesis
  proof (cases "mapE ?f (zip inp outs)")
    case (Inl e1)
    have "e1 = IndexError"
      by (rule mapE_Inl_only[OF _ Inl]) (auto split: if_splits)
    with Inl assms show ?thesis by (simp add: resampler_init_def)
  next
    case outp: (Inr outp)
    show ?thesis
    proof (cases "mapE ?h (zip outp inp)")
      case (Inl e2)
      have "e2 = IndexError"
        by (rule mapE_Inl_only[OF _ Inl]) (auto dest: axis_precompute_Inl)
      with Inl outp assms show ?thesis by (simp add: resampler_init_def)
    next
      case pre: (Inr pre)
      show ?thesis
      proof (cases "find_weights (map snd pre) (length inp)")
        case (Inl e3)
        then have "e3 = IndexError" by (rule find_weights_Inl)
        with Inl outp pre assms show ?thesis by (simp add: resampler_init_def)
      next
        case ws: (Inr ws)
        show ?thesis
        proof (cases "cartesian_prod (map fst pre)")
          case (Inl e4)
          then have "e4 = IndexError" by (rule cartesian_prod_Inl)
          with Inl outp pre ws assms show ?thesis by (simp add: resampler_init_def)
        next
          case (Inr prod_arr)
          with outp pre ws assms show ?thesis by (simp add: resampler_init_def Let_def)
        qed
      qed
    qed
  qed
qed

lemma init_outcomes:
  "resampler_init inp outs =
     (if \<exists>p \<in> set inp. \<not> sorted_wrt (<) p
        then Inl (ValueError ''Points arrays must be strictly ascending'')
      else if length outs \<noteq> length inp
        then Inl (ValueError ''The output array must have the same number of dimensions as the input array'')
      else if \<exists>n \<in> set outs. n < 2
        then Inl (ValueError ''Each output dimension needs at least 2 points'')
      else if inp = [] \<or> (\<exists>p \<in> set inp. length p < 2)
        then Inl IndexError
      else Inr (built inp outs))"
proof -
  have "list_ex (\<lambda>d. d \<le> 0) (np_diff p) = (\<not> sorted_wrt (<) p)" for p
    using ascending_check[of p] by blast
  then have c1: "list_ex (\<lambda>p. list_ex (\<lambda>d. d \<le> 0) (np_diff p)) inp = (\<exists>p \<in> set inp. \<not> sorted_wrt (<) p)"
    by (simp add: list_ex_iff[of _ inp])
  have c3: "list_ex (\<lambda>n_p. n_p < 2) outs = (\<exists>n \<in> set outs. n < 2)"
    by (simp add: list_ex_iff)
  show ?thesis
  proof (cases "(\<exists>p \<in> set inp. \<not> sorted_wrt (<) p) \<or> length outs \<noteq> length inp
                \<or> (\<exists>n \<in> set outs. n < 2)")
    case True
    then show ?thesis unfolding resampler_init_def c1 c3 by auto
  next
    case False
    then have s: "\<not> (\<exists>p \<in> set inp. \<not> sorted_wrt (<) p)" and len: "length outs = length inp"
      and n2: "\<not> (\<exists>n \<in> set outs. n < 2)" by auto
    show ?thesis
    proof (cases "inp = [] \<or> (\<exists>p \<in> set inp. length p < 2)")
      case bad: True
      have "\<not> valid_config inp outs"
      proof
        assume "valid_config inp outs"
        then have "inp \<noteq> []" and "\<And>p. p \<in> set inp \<Longrightarrow> 2 \<le> length p"
          by (simp_all add: valid_config_def list_all_iff)
        with bad show False by fastforce
      qed
      then have "\<forall>r. resampler_init inp outs \<noteq> Inr r" using init_Inr_valid by blast
      then obtain e where e: "resampler_init inp outs = Inl e"
        by (cases "resampler_init inp outs") auto
      have "e = IndexError"
        using s len n2 e by (intro init_Inl_after_checks[of inp outs]) (simp_all add: c1 c3)
      with e show ?thesis using s len n2 bad by simp
    next
      case good: False
      have "valid_config inp outs"
        using s len n2 good by (auto simp: valid_config_def list_all_iff not_less)
      then show ?thesis using init_valid s len n2 good by simp
    qed
  qed
qed

text \<open>
  C5: the construction does not raise the configuration error for an axis with a single
  point: the validation loop finds no descending step, the two tests on the output shape
  pass, and indexing the empty array of cell widths raises IndexError. The same happens
  in a later axis, and without any axis. The sibling cases raise ValueError.
\<close>

theorem init_single_point_axis:
  "resampler_init [[5]] [2] = Inl IndexError
   \<and> resampler_init [[0, 10, 20], [1]] [5, 2] = Inl IndexError
   \<and> resampler_init [] [] = Inl IndexError
   \<and> resampler_init [[0, 10, 10]] [5] = Inl (ValueError ''Points arrays must be strictly ascending'')
   \<and> resampler_init [[0, 10, 20]] [5, 5]
     = Inl (ValueError ''The output array must have the same number of dimensions as the input array'')
   \<and> resampler_init [[0, 10, 20]] [1]
     = Inl (ValueError ''Each output dimension needs at least 2 points'')"
  by code_simp

subsection \<open>The corners of the containing cell\<close>

lemma edge_keys_set: "set (edge_keys n) = {k. length k = n \<and> (\<forall>j \<in> set k. j < 2)}"
proof (intro set_eqI iffI)
  fix k :: "nat list" assume "k \<in> set (edge_keys n)"
  then show "k \<in> {k. length k = n \<and> (\<forall>j \<in> set k. j < 2)}" using edge_keys_mem by blast
next
  fix k :: "nat list" assume "k \<in> {k. length k = n \<and> (\<forall>j \<in> set k. j < 2)}"
  then have l: "length k = n" and b: "\<And>i. i < n \<Longrightarrow> k ! i < 2" by auto
  have "list_all2 (\<lambda>x ys. x \<in> set ys) k (replicate n [0, 1])"
    unfolding list_all2_conv_all_nth
  proof (intro conjI allI impI)
    show "length k = length (replicate n [0::nat, 1])" using l by simp
    fix i assume "i < length k"
    then have "k ! i < 2" "i < n" using b l by simp_all
    then show "k ! i \<in> set (replicate n [0, 1] ! i)" by auto
  qed
  then show "k \<in> set (edge_keys n)" by (simp add: edge_keys_def product_lists_set)
qed

lemma distinct_edge_keys: "distinct (edge_keys n)"
  unfolding edge_keys_def by (rule distinct_product_lists) simp

lemma built_cell:
  assumes v: "valid_config inp outs" and li: "length pos = length inp"
    and rng: "\<And>i. i < length inp \<Longrightarrow> pos ! i < nat (outs ! i)"
  defines "t \<equiv> ravel_multi_index (map nat outs) pos"
  shows "cell_lower (built inp outs) pos = product_lists (lower_axes inp outs) ! t"
    and "cell_dist (built inp outs) pos = product_lists (upper_axes inp outs) ! t"
    and "\<And>i. i < length inp \<Longrightarrow>
           cell_lower (built inp outs) pos ! i = lower_edge (inp ! i) (point_at (built inp outs) pos ! i)
           \<and> cell_dist (built inp outs) pos ! i = norm_distance (inp ! i) (point_at (built inp outs) pos ! i)
           \<and> inp ! i ! 0 \<le> point_at (built inp outs) pos ! i
           \<and> point_at (built inp outs) pos ! i \<le> inp ! i ! (length (inp ! i) - 1)"
proof -
  let ?r = "built inp outs"
  have len: "length outs = length inp" using v by (simp add: valid_config_def)
  have lo: "length (out_axes inp outs) = length inp" using len by (rule length_out_axes)
  have f: "ndim ?r = length inp" "out_points ?r = out_axes inp outs"
    "lower_edge_inds ?r = lower_axes inp outs" "norm_distances ?r = upper_axes inp outs"
    by (simp_all add: built_def)
  have pa: "point_at ?r pos = map (\<lambda>(a, i). a ! i) (zip (out_axes inp outs) pos)"
    unfolding point_at_def f using lo li by (intro nth_equalityI) simp_all
  have r2: "product_lists (lower_axes inp outs) ! t
            = map (\<lambda>(p, v). lower_edge p v) (zip inp (map (\<lambda>(a, i). a ! i) (zip (out_axes inp outs) pos)))"
    and r3: "product_lists (upper_axes inp outs) ! t
            = map (\<lambda>(p, v). norm_distance p v) (zip inp (map (\<lambda>(a, i). a ! i) (zip (out_axes inp outs) pos)))"
    using rows_at_multi_index(2,3)[OF v li rng] unfolding t_def by simp_all
  have pi: "point_at ?r pos ! i = out_axes inp outs ! i ! (pos ! i)" if "i < length inp" for i
    using that by (simp add: point_at_def f)
  have il: "pos ! i < length (out_axes inp outs ! i)" if i: "i < length inp" for i
    using rng[OF i] valid_axis(4)[OF v i] by (simp add: length_np_linspace)
  have ci: "cell_lower ?r pos ! i = lower_edge (inp ! i) (point_at ?r pos ! i)"
    and di: "cell_dist ?r pos ! i = norm_distance (inp ! i) (point_at ?r pos ! i)"
    if i: "i < length inp" for i
    using i il[OF i] valid_axis(5,6)[OF v i] pi[OF i]
    by (simp_all add: cell_lower_def cell_dist_def f)
  show "cell_lower ?r pos = product_lists (lower_axes inp outs) ! t"
    unfolding r2 using ci li lo
    by (intro nth_equalityI) (simp_all add: cell_lower_def f pa)
  show "cell_dist ?r pos = product_lists (upper_axes inp outs) ! t"
    unfolding r3 using di li lo
    by (intro nth_equalityI) (simp_all add: cell_dist_def f pa)
  fix i assume i: "i < length inp"
  note ax = valid_axis[OF v i]
  have n2: "2 \<le> nat (outs ! i)" using ax(3) by simp
  have hl: "hd (inp ! i) \<le> last (inp ! i)" using ax(9) by simp
  have "inp ! i ! 0 \<le> point_at ?r pos ! i"
    and "point_at ?r pos ! i \<le> inp ! i ! (length (inp ! i) - 1)"
    using np_linspace_bounds[OF n2 rng[OF i] hl] pi[OF i] ax(4,7,8) by simp_all
  with ci[OF i] di[OF i]
  show "cell_lower ?r pos ! i = lower_edge (inp ! i) (point_at ?r pos ! i)
        \<and> cell_dist ?r pos ! i = norm_distance (inp ! i) (point_at ?r pos ! i)
        \<and> inp ! i ! 0 \<le> point_at ?r pos ! i
        \<and> point_at ?r pos ! i \<le> inp ! i ! (length (inp ! i) - 1)"
    by simp
qed

lemma edge_weight_prod:
  assumes "length k = n" "length u = n" "\<And>j. j \<in> set k \<Longrightarrow> j < 2"
  shows "edge_weight k u = (\<Prod>i \<leftarrow> [0..<n]. if k ! i = 1 then u ! i else 1 - u ! i)"
proof -
  have "map (\<lambda>(j, u). [1 - u, u] ! j) (zip k u)
        = map (\<lambda>i. if k ! i = 1 then u ! i else 1 - u ! i) [0..<n]"
  proof (rule nth_equalityI)
    show "length (map (\<lambda>(j, u). [1 - u, u] ! j) (zip k u))
          = length (map (\<lambda>i. if k ! i = 1 then u ! i else 1 - u ! i) [0..<n])"
      using assms(1,2) by simp
    fix i assume "i < length (map (\<lambda>(j, u). [1 - u, u] ! j) (zip k u))"
    then have i: "i < n" using assms(1,2) by simp
    then have "k ! i < 2" using assms(1,3) by simp
    then have "k ! i = 0 \<or> k ! i = 1" by auto
    then show "map (\<lambda>(j, u). [1 - u, u] ! j) (zip k u) ! i
               = map (\<lambda>i. if k ! i = 1 then u ! i else 1 - u ! i) [0..<n] ! i"
      using i assms(1,2) by auto
  qed
  then show ?thesis by (simp add: edge_weight_def)
qed

lemma built_corner:
  assumes v: "valid_config inp outs" and sh: "shape g = map length inp"
    and li: "length pos = length inp"
    and rng: "\<And>i. i < length inp \<Longrightarrow> pos ! i < nat (outs ! i)"
    and k: "k \<in> set (edge_keys (length inp))"
  shows "nd_item g (edge_index k (cell_lower (built inp outs) pos))
         = Inr (corner_value g k (cell_lower (built inp outs) pos))"
    and "\<And>i. i < length inp \<Longrightarrow>
           edge_index k (cell_lower (built inp outs) pos) ! i
           = cell_lower (built inp outs) pos ! i + int (k ! i)"
proof -
  let ?c = "cell_lower (built inp outs) pos"
  have lk: "length k = length inp" and jk: "\<And>j. j \<in> set k \<Longrightarrow> j < 2"
    using edge_keys_mem[OF k] by auto
  have lc: "length ?c = length inp" by (simp add: cell_lower_def built_def)
  show ei: "edge_index k ?c ! i = ?c ! i + int (k ! i)" if "i < length inp" for i
    using that lk lc by (simp add: edge_index_def)
  have le: "length (edge_index k ?c) = length (shape g)"
    using lk lc sh by (simp add: edge_index_def)
  have "nd_item g (edge_index k ?c)
        = Inr (data g ! ravel_multi_index (shape g) (map nat (edge_index k ?c)))"
  proof (rule nd_item_in_range[OF le])
    fix i assume "i < length (edge_index k ?c)"
    then have i: "i < length inp" using le sh by simp
    have p2: "2 \<le> length (inp ! i)" using valid_axis(1)[OF v i] .
    have "?c ! i = lower_edge (inp ! i) (point_at (built inp outs) pos ! i)"
      using built_cell(3)[OF v li rng i] by simp
    with lower_edge_range[OF p2] have c: "0 \<le> ?c ! i" "?c ! i \<le> int (length (inp ! i)) - 2"
      by simp_all
    have "k ! i < 2" using jk lk i by simp
    moreover have "shape g ! i = length (inp ! i)" using sh i by simp
    ultimately show "0 \<le> edge_index k ?c ! i \<and> edge_index k ?c ! i < int (shape g ! i)"
      unfolding ei[OF i] using c by linarith
  qed
  then show "nd_item g (edge_index k ?c) = Inr (corner_value g k ?c)"
    by (simp add: corner_value_def)
qed

text \<open>
  C3: after a construction that succeeded, a call on a grid of the stored shape returns
  an array whose value at every output point \<open>t\<close> is exactly the sum, over the stored
  edges, of the gathered grid value times the stored weight (nothing is clipped). The
  edges are the \<open>2 ^ ndim\<close> lists of zeros and ones, each once. The output point has a
  multi-index \<open>pos\<close>; on every axis its coordinate lies between the axis points at the
  stored lower edge index and at the next index, so these indices are the lower corner of
  the cell that contains the point. The value gathered for the edge \<open>k\<close> is the grid
  element at that corner plus \<open>k\<close>, a corner of the containing cell, and its weight is
  the product over the axes of the normalised distance (where \<open>k\<close> is 1) or of one minus
  it (where \<open>k\<close> is 0). The weights are non-negative and sum to 1, so the value lies
  between the smallest and the largest of the corner values; the corner values are
  elements of the grid, and when the grid has no negative element the output value is not
  negative.
\<close>

theorem call_convex_combination:
  assumes "resampler_init inp outs = Inr r" and "shape g = in_shape r"
    and "t < nat (prod_list outs)"
  shows "\<exists>out pos.
           resampler_call r g = Inr (out_points r, out)
         \<and> data out ! t = (\<Sum>(k, w) \<leftarrow> weights r. gathered r g k t * w ! t)
         \<and> (\<forall>(k, w) \<in> set (weights r). 0 \<le> w ! t)
         \<and> (\<Sum>(k, w) \<leftarrow> weights r. w ! t) = 1
         \<and> Min ((\<lambda>(k, w). gathered r g k t) ` set (weights r)) \<le> data out ! t
         \<and> data out ! t \<le> Max ((\<lambda>(k, w). gathered r g k t) ` set (weights r))
         \<and> (ndarray_ok g \<longrightarrow> (\<forall>(k, w) \<in> set (weights r). gathered r g k t \<in> set (data g)))
         \<and> (ndarray_ok g \<and> (\<forall>x \<in> set (data g). 0 \<le> x) \<longrightarrow> 0 \<le> data out ! t)
         \<and> map fst (weights r) = edge_keys (length inp)
         \<and> distinct (edge_keys (length inp))
         \<and> set (edge_keys (length inp)) = {k. length k = length inp \<and> (\<forall>j \<in> set k. j < 2)}
         \<and> length pos = length inp
         \<and> (\<forall>i < length inp. pos ! i < nat (outs ! i))
         \<and> ravel_multi_index (map nat outs) pos = t
         \<and> nd_item out (map int pos) = Inr (data out ! t)
         \<and> (\<forall>i < length inp.
               0 \<le> cell_lower r pos ! i
             \<and> Suc (nat (cell_lower r pos ! i)) < length (inp ! i)
             \<and> inp ! i ! nat (cell_lower r pos ! i) \<le> point_at r pos ! i
             \<and> point_at r pos ! i \<le> inp ! i ! Suc (nat (cell_lower r pos ! i))
             \<and> cell_dist r pos ! i
                 = (point_at r pos ! i - inp ! i ! nat (cell_lower r pos ! i))
                   / (inp ! i ! Suc (nat (cell_lower r pos ! i)) - inp ! i ! nat (cell_lower r pos ! i))
             \<and> 0 \<le> cell_dist r pos ! i \<and> cell_dist r pos ! i \<le> 1)
         \<and> (\<forall>(k, w) \<in> set (weights r).
               nd_item g (edge_index k (cell_lower r pos)) = Inr (gathered r g k t)
             \<and> (\<forall>i < length inp.
                   edge_index k (cell_lower r pos) ! i = cell_lower r pos ! i + int (k ! i))
             \<and> w ! t = (\<Prod>i \<leftarrow> [0..<length inp].
                          if k ! i = 1 then cell_dist r pos ! i else 1 - cell_dist r pos ! i))"
proof -
  have v: "valid_config inp outs" and r: "r = built inp outs"
    using assms(1) by (simp_all add: init_Inr_iff)
  have sh: "shape g = map length inp" using assms(2) r by (simp add: built_def)
  have len: "length outs = length inp" using v by (simp add: valid_config_def)
  note t = assms(3)
  let ?K = "edge_keys (length inp)"
  let ?L = "product_lists (lower_axes inp outs)"
  let ?U = "product_lists (upper_axes inp outs)"
  from call_weighted_sum[OF assms] obtain out where
    call: "resampler_call r g = Inr (out_points r, out)"
    and o1: "data out ! t = (\<Sum>(k, w) \<leftarrow> weights r. gathered r g k t * w ! t)"
    and o2: "\<forall>(k, w) \<in> set (weights r). 0 \<le> w ! t"
    and o3: "(\<Sum>(k, w) \<leftarrow> weights r. w ! t) = 1"
    and o4: "Min ((\<lambda>(k, w). gathered r g k t) ` set (weights r)) \<le> data out ! t"
    and o5: "data out ! t \<le> Max ((\<lambda>(k, w). gathered r g k t) ` set (weights r))"
    and o6: "ndarray_ok g \<longrightarrow> (\<forall>(k, w) \<in> set (weights r). gathered r g k t \<in> set (data g))"
    and o7: "ndarray_ok g \<and> (\<forall>x \<in> set (data g). 0 \<le> x) \<longrightarrow> 0 \<le> data out ! t"
    by blast
  have "\<And>n. n \<in> set outs \<Longrightarrow> 0 \<le> n"
    using v by (fastforce simp: valid_config_def list_all_iff)
  then have pn: "nat (prod_list outs) = prod_list (map nat outs)" by (rule nat_prod_list)
  from t obtain pos where li: "length pos = length inp"
    and rng': "\<forall>i < length inp. pos ! i < nat (outs ! i)"
    and rv: "ravel_multi_index (map nat outs) pos = t"
    using flat_position_multi_index[of t "map nat outs"] pn len by auto
  have rng: "\<And>i. i < length inp \<Longrightarrow> pos ! i < nat (outs ! i)" using rng' by simp
  have k1: "map fst (weights r) = ?K" by (simp add: r built_def o_def)
  have k2: "distinct ?K" by (rule distinct_edge_keys)
  have k3: "set ?K = {k. length k = length inp \<and> (\<forall>j \<in> set k. j < 2)}" by (rule edge_keys_set)
  from output_at_multi_index[OF v sh li rng] obtain out' where
    c': "resampler_call (built inp outs) g = Inr (out_axes inp outs, out')"
    and d': "data out' ! ravel_multi_index (map nat outs) pos
             = interp_point inp g (map (\<lambda>(a, i). a ! i) (zip (out_axes inp outs) pos))"
    and n': "nd_item out' (map int pos)
             = Inr (interp_point inp g (map (\<lambda>(a, i). a ! i) (zip (out_axes inp outs) pos)))"
    by blast
  have "out' = out" using c' call unfolding r by simp
  then have p4: "nd_item out (map int pos) = Inr (data out ! t)"
    using d' n' rv by simp
  have cell: "cell_lower r pos = ?L ! t" "cell_dist r pos = ?U ! t"
    "\<And>i. i < length inp \<Longrightarrow>
           cell_lower r pos ! i = lower_edge (inp ! i) (point_at r pos ! i)
           \<and> cell_dist r pos ! i = norm_distance (inp ! i) (point_at r pos ! i)
           \<and> inp ! i ! 0 \<le> point_at r pos ! i
           \<and> point_at r pos ! i \<le> inp ! i ! (length (inp ! i) - 1)"
    using built_cell[of inp outs pos, OF v li] rng rv unfolding r by simp_all
  have p5: "\<forall>i < length inp.
               0 \<le> cell_lower r pos ! i
             \<and> Suc (nat (cell_lower r pos ! i)) < length (inp ! i)
             \<and> inp ! i ! nat (cell_lower r pos ! i) \<le> point_at r pos ! i
             \<and> point_at r pos ! i \<le> inp ! i ! Suc (nat (cell_lower r pos ! i))
             \<and> cell_dist r pos ! i
                 = (point_at r pos ! i - inp ! i ! nat (cell_lower r pos ! i))
                   / (inp ! i ! Suc (nat (cell_lower r pos ! i)) - inp ! i ! nat (cell_lower r pos ! i))
             \<and> 0 \<le> cell_dist r pos ! i \<and> cell_dist r pos ! i \<le> 1"
  proof (intro allI impI)
    fix i assume i: "i < length inp"
    let ?p = "inp ! i"
    let ?v = "point_at r pos ! i"
    have p2: "2 \<le> length ?p" and ps: "sorted_wrt (<) ?p"
      using valid_axis(1,2)[OF v i] by simp_all
    from cell(3)[OF i] have c: "cell_lower r pos ! i = lower_edge ?p ?v"
      and d: "cell_dist r pos ! i = norm_distance ?p ?v"
      and lo: "?p ! 0 \<le> ?v" and hi: "?v \<le> ?p ! (length ?p - 1)"
      by simp_all
    have a: "0 \<le> lower_edge ?p ?v" and b: "Suc (nat (lower_edge ?p ?v)) < length ?p"
      using lower_edge_range[OF p2, of ?v] p2 by linarith+
    note br = lower_edge_bracket(1,2)[OF ps p2 lo hi]
    note nr = norm_distance_range[OF ps p2 lo hi]
    have f: "norm_distance ?p ?v
             = (?v - ?p ! nat (lower_edge ?p ?v))
               / (?p ! Suc (nat (lower_edge ?p ?v)) - ?p ! nat (lower_edge ?p ?v))"
      by (simp add: norm_distance_def Let_def)
    show "0 \<le> cell_lower r pos ! i
             \<and> Suc (nat (cell_lower r pos ! i)) < length (inp ! i)
             \<and> inp ! i ! nat (cell_lower r pos ! i) \<le> point_at r pos ! i
             \<and> point_at r pos ! i \<le> inp ! i ! Suc (nat (cell_lower r pos ! i))
             \<and> cell_dist r pos ! i
                 = (point_at r pos ! i - inp ! i ! nat (cell_lower r pos ! i))
                   / (inp ! i ! Suc (nat (cell_lower r pos ! i)) - inp ! i ! nat (cell_lower r pos ! i))
             \<and> 0 \<le> cell_dist r pos ! i \<and> cell_dist r pos ! i \<le> 1"
      unfolding c d using a b br nr f by (intro conjI)
  qed
  have ld: "length (cell_dist r pos) = length inp" by (simp add: cell_dist_def r built_def)
  have p6: "\<forall>(k, w) \<in> set (weights r).
               nd_item g (edge_index k (cell_lower r pos)) = Inr (gathered r g k t)
             \<and> (\<forall>i < length inp.
                   edge_index k (cell_lower r pos) ! i = cell_lower r pos ! i + int (k ! i))
             \<and> w ! t = (\<Prod>i \<leftarrow> [0..<length inp].
                          if k ! i = 1 then cell_dist r pos ! i else 1 - cell_dist r pos ! i)"
  proof (intro ballI, clarify)
    fix k w assume "(k, w) \<in> set (weights r)"
    then have k: "k \<in> set ?K" and w: "w = map (edge_weight k) ?U"
      by (auto simp: r built_def)
    have lk: "length k = length inp" and jk: "\<And>j. j \<in> set k \<Longrightarrow> j < 2"
      using edge_keys_mem[OF k] by auto
    have gk: "gathered r g k t = corner_value g k (cell_lower r pos)"
      using built_gathered[OF v k t, of g] cell(1) unfolding r by simp
    have 1: "nd_item g (edge_index k (cell_lower r pos)) = Inr (gathered r g k t)"
      unfolding gk using built_corner(1)[OF v sh li rng k] unfolding r .
    have 2: "\<forall>i < length inp.
               edge_index k (cell_lower r pos) ! i = cell_lower r pos ! i + int (k ! i)"
      using built_corner(2)[OF v sh li rng k] unfolding r by blast
    have "w ! t = edge_weight k (?U ! t)" unfolding w using t valid_total(2)[OF v] by simp
    also have "\<dots> = edge_weight k (cell_dist r pos)" unfolding cell(2) ..
    also have "\<dots> = (\<Prod>i \<leftarrow> [0..<length inp].
                          if k ! i = 1 then cell_dist r pos ! i else 1 - cell_dist r pos ! i)"
      using lk ld jk by (rule edge_weight_prod)
    finally have 3: "w ! t = (\<Prod>i \<leftarrow> [0..<length inp].
                          if k ! i = 1 then cell_dist r pos ! i else 1 - cell_dist r pos ! i)" .
    from 1 2 3
    show "nd_item g (edge_index k (cell_lower r pos)) = Inr (gathered r g k t)
          \<and> (\<forall>i < length inp.
                edge_index k (cell_lower r pos) ! i = cell_lower r pos ! i + int (k ! i))
          \<and> w ! t = (\<Prod>i \<leftarrow> [0..<length inp].
                       if k ! i = 1 then cell_dist r pos ! i else 1 - cell_dist r pos ! i)"
      by (intro conjI)
  qed
  from call o1 o2 o3 o4 o5 o6 o7 k1 k2 k3 li rng' rv p4 p5 p6
  show ?thesis by (intro exI[of _ out] exI[of _ pos] conjI)
qed

theorem call_convex_combination_witness:
  "resampler_init [[0, 10, 20]] [5] = Inr resampler_1d
   \<and> shape \<lparr>shape = [3], data = [0, 100, 0]\<rparr> = in_shape resampler_1d
   \<and> (1::nat) < nat (prod_list [5]) \<and> (4::nat) < nat (prod_list [5])
   \<and> ndarray_ok \<lparr>shape = [3], data = [0, 100, 0]\<rparr>
   \<and> resampler_call resampler_1d \<lparr>shape = [3], data = [0, 100, 0]\<rparr>
       = Inr (out_points resampler_1d, \<lparr>shape = [5], data = [0, 50, 100, 50, 0]\<rparr>)
   \<and> (\<Sum>(k, w) \<leftarrow> weights resampler_1d.
          gathered resampler_1d \<lparr>shape = [3], data = [0, 100, 0]\<rparr> k 1 * w ! 1) = 50
   \<and> Min ((\<lambda>(k, w). gathered resampler_1d \<lparr>shape = [3], data = [0, 100, 0]\<rparr> k 1)
            ` set (weights resampler_1d)) \<le> 50
   \<and> 50 \<le> Max ((\<lambda>(k, w). gathered resampler_1d \<lparr>shape = [3], data = [0, 100, 0]\<rparr> k 1)
            ` set (weights resampler_1d))
   \<and> map fst (weights resampler_1d) = [[0], [1]]
   \<and> ravel_multi_index (map nat [5]) [1] = 1
   \<and> point_at resampler_1d [1] = [5]
   \<and> cell_lower resampler_1d [1] = [0]
   \<and> cell_dist resampler_1d [1] = [1 / 2]
   \<and> [[0, 10, 20 :: real]] ! 0 ! nat (cell_lower resampler_1d [1] ! 0) \<le> point_at resampler_1d [1] ! 0
   \<and> point_at resampler_1d [1] ! 0 \<le> [[0, 10, 20 :: real]] ! 0 ! Suc (nat (cell_lower resampler_1d [1] ! 0))
   \<and> nd_item \<lparr>shape = [3], data = [0, 100, 0]\<rparr> (edge_index [0] (cell_lower resampler_1d [1]))
       = Inr (gathered resampler_1d \<lparr>shape = [3], data = [0, 100, 0]\<rparr> [0] 1)
   \<and> nd_item \<lparr>shape = [3], data = [0, 100, 0]\<rparr> (edge_index [1] (cell_lower resampler_1d [1]))
       = Inr (gathered resampler_1d \<lparr>shape = [3], data = [0, 100, 0]\<rparr> [1] 1)
   \<and> gathered resampler_1d \<lparr>shape = [3], data = [0, 100, 0]\<rparr> [0] 1 = 0
   \<and> gathered resampler_1d \<lparr>shape = [3], data = [0, 100, 0]\<rparr> [1] 1 = 100
   \<and> ravel_multi_index (map nat [5]) [4] = 4
   \<and> point_at resampler_1d [4] = [20]
   \<and> cell_lower resampler_1d [4] = [1]
   \<and> cell_dist resampler_1d [4] = [1]
   \<and> [[0, 10, 20 :: real]] ! 0 ! nat (cell_lower resampler_1d [4] ! 0) \<le> point_at resampler_1d [4] ! 0
   \<and> point_at resampler_1d [4] ! 0 \<le> [[0, 10, 20 :: real]] ! 0 ! Suc (nat (cell_lower resampler_1d [4] ! 0))
   \<and> nd_item \<lparr>shape = [3], data = [0, 100, 0]\<rparr> (edge_index [0] (cell_lower resampler_1d [4]))
       = Inr (gathered resampler_1d \<lparr>shape = [3], data = [0, 100, 0]\<rparr> [0] 4)
   \<and> nd_item \<lparr>shape = [3], data = [0, 100, 0]\<rparr> (edge_index [1] (cell_lower resampler_1d [4]))
       = Inr (gathered resampler_1d \<lparr>shape = [3], data = [0, 100, 0]\<rparr> [1] 4)
   \<and> gathered resampler_1d \<lparr>shape = [3], data = [0, 100, 0]\<rparr> [0] 4 = 100
   \<and> gathered resampler_1d \<lparr>shape = [3], data = [0, 100, 0]\<rparr> [1] 4 = 0
   \<and> (\<Sum>(k, w) \<leftarrow> weights resampler_1d.
          gathered resampler_1d \<lparr>shape = [3], data = [0, 100, 0]\<rparr> k 4 * w ! 4) = 0
   \<and> resampler_call resampler_1d \<lparr>shape = [3], data = [0, - 100, 0]\<rparr>
       = Inr (out_points resampler_1d, \<lparr>shape = [5], data = [0, - 50, - 100, - 50, 0]\<rparr>)
   \<and> (\<Sum>(k, w) \<leftarrow> weights resampler_1d.
          gathered resampler_1d \<lparr>shape = [3], data = [0, - 100, 0]\<rparr> k 1 * w ! 1) = - 50"
proof -
  let ?g = "\<lparr>shape = [3], data = [0, 100, 0]\<rparr>"
  let ?h = "\<lparr>shape = [3], data = [0, - 100, 0]\<rparr>"
  let ?r = resampler_1d
  have sg: "shape ?g = in_shape ?r" and sh: "shape ?h = in_shape ?r"
    by (simp_all add: resampler_1d_def)
  have t1: "(1::nat) < nat (prod_list [5])" and t4: "(4::nat) < nat (prod_list [5])" by simp_all
  have op: "out_points ?r = [[0, 5, 10, 15, 20]]" by (simp add: resampler_1d_def)
  have ok: "ndarray_ok ?g" by (simp add: ndarray_ok_def)
  have c1: "resampler_call ?r ?g = Inr (out_points ?r, \<lparr>shape = [5], data = [0, 50, 100, 50, 0]\<rparr>)"
    using call_1d op by simp
  have c2: "resampler_call ?r ?h = Inr (out_points ?r, \<lparr>shape = [5], data = [0, - 50, - 100, - 50, 0]\<rparr>)"
    using call_1d_negative op by simp
  have ws: "set (weights ?r) = {([0], [1, 1 / 2, 0, 1 / 2, 0]), ([1], [0, 1 / 2, 1, 1 / 2, 1])}"
    by (simp add: resampler_1d_def)
  have mf: "map fst (weights ?r) = [[0], [1]]" by (simp add: resampler_1d_def)
  have one: "\<And>pos :: nat list. length pos = 1 \<Longrightarrow> ravel_multi_index (map nat [5]) pos = pos ! 0"
  proof -
    fix pos :: "nat list" assume "length pos = 1"
    then obtain x where "pos = [x]" by (cases pos) auto
    then show "ravel_multi_index (map nat [5]) pos = pos ! 0" by simp
  qed
  have pos: "\<And>(pos :: nat list) t. length pos = 1 \<Longrightarrow> ravel_multi_index (map nat [5]) pos = t
               \<Longrightarrow> pos = [t]"
  proof -
    fix pos :: "nat list" and t assume l: "length pos = 1"
      and "ravel_multi_index (map nat [5]) pos = t"
    then have "pos ! 0 = t" using one by simp
    then show "pos = [t]" using l by (cases pos) auto
  qed
  have pa1: "point_at ?r [1] = [5]" and cl1: "cell_lower ?r [1] = [0]"
    and cd1: "cell_dist ?r [1] = [1 / 2]"
    and pa4: "point_at ?r [4] = [20]" and cl4: "cell_lower ?r [4] = [1]"
    and cd4: "cell_dist ?r [4] = [1]"
    by (simp_all add: point_at_def cell_lower_def cell_dist_def resampler_1d_def)
  have g01: "gathered ?r ?g [0] 1 = 0" and g11: "gathered ?r ?g [1] 1 = 100"
    and g04: "gathered ?r ?g [0] 4 = 100" and g14: "gathered ?r ?g [1] 4 = 0"
    by (simp_all add: gathered_def resampler_1d_def)
  have rv1: "ravel_multi_index (map nat [5]) [1] = 1"
    and rv4: "ravel_multi_index (map nat [5]) [4] = 4" by simp_all
  from call_convex_combination[OF init_1d sg t1] obtain out1 pos1 where
    a0: "resampler_call ?r ?g = Inr (out_points ?r, out1)"
    and a1: "data out1 ! 1 = (\<Sum>(k, w) \<leftarrow> weights ?r. gathered ?r ?g k 1 * w ! 1)"
    and a2: "Min ((\<lambda>(k, w). gathered ?r ?g k 1) ` set (weights ?r)) \<le> data out1 ! 1"
    and a3: "data out1 ! 1 \<le> Max ((\<lambda>(k, w). gathered ?r ?g k 1) ` set (weights ?r))"
    and a4: "length pos1 = length [[0, 10, 20 :: real]]"
    and a5: "ravel_multi_index (map nat [5]) pos1 = 1"
    and a6: "\<forall>i < length [[0, 10, 20 :: real]].
               0 \<le> cell_lower ?r pos1 ! i
             \<and> Suc (nat (cell_lower ?r pos1 ! i)) < length ([[0, 10, 20 :: real]] ! i)
             \<and> [[0, 10, 20 :: real]] ! i ! nat (cell_lower ?r pos1 ! i) \<le> point_at ?r pos1 ! i
             \<and> point_at ?r pos1 ! i \<le> [[0, 10, 20 :: real]] ! i ! Suc (nat (cell_lower ?r pos1 ! i))
             \<and> cell_dist ?r pos1 ! i
                 = (point_at ?r pos1 ! i - [[0, 10, 20 :: real]] ! i ! nat (cell_lower ?r pos1 ! i))
                   / ([[0, 10, 20 :: real]] ! i ! Suc (nat (cell_lower ?r pos1 ! i))
                      - [[0, 10, 20 :: real]] ! i ! nat (cell_lower ?r pos1 ! i))
             \<and> 0 \<le> cell_dist ?r pos1 ! i \<and> cell_dist ?r pos1 ! i \<le> 1"
    and a7: "\<forall>(k, w) \<in> set (weights ?r).
               nd_item ?g (edge_index k (cell_lower ?r pos1)) = Inr (gathered ?r ?g k 1)
             \<and> (\<forall>i < length [[0, 10, 20 :: real]].
                   edge_index k (cell_lower ?r pos1) ! i = cell_lower ?r pos1 ! i + int (k ! i))
             \<and> w ! 1 = (\<Prod>i \<leftarrow> [0..<length [[0, 10, 20 :: real]]].
                          if k ! i = 1 then cell_dist ?r pos1 ! i else 1 - cell_dist ?r pos1 ! i)"
    by blast
  have p1: "pos1 = [1]" using pos[of pos1 1] a4 a5 by simp
  have o1: "out1 = \<lparr>shape = [5], data = [0, 50, 100, 50, 0]\<rparr>" using a0 c1 by simp
  have s1: "(\<Sum>(k, w) \<leftarrow> weights ?r. gathered ?r ?g k 1 * w ! 1) = 50"
    using a1 unfolding o1 by simp
  have m1: "Min ((\<lambda>(k, w). gathered ?r ?g k 1) ` set (weights ?r)) \<le> 50"
    using a2 unfolding o1 by simp
  have m2: "50 \<le> Max ((\<lambda>(k, w). gathered ?r ?g k 1) ` set (weights ?r))"
    using a3 unfolding o1 by simp
  have b1: "[[0, 10, 20 :: real]] ! 0 ! nat (cell_lower ?r [1] ! 0) \<le> point_at ?r [1] ! 0"
    and b2: "point_at ?r [1] ! 0 \<le> [[0, 10, 20 :: real]] ! 0 ! Suc (nat (cell_lower ?r [1] ! 0))"
    using a6 unfolding p1 by simp_all
  have n0: "nd_item ?g (edge_index [0] (cell_lower ?r [1])) = Inr (gathered ?r ?g [0] 1)"
    and n1: "nd_item ?g (edge_index [1] (cell_lower ?r [1])) = Inr (gathered ?r ?g [1] 1)"
    using a7 unfolding p1 ws by simp_all
  from call_convex_combination[OF init_1d sg t4] obtain out4 pos4 where
    d0: "resampler_call ?r ?g = Inr (out_points ?r, out4)"
    and d1: "data out4 ! 4 = (\<Sum>(k, w) \<leftarrow> weights ?r. gathered ?r ?g k 4 * w ! 4)"
    and d4: "length pos4 = length [[0, 10, 20 :: real]]"
    and d5: "ravel_multi_index (map nat [5]) pos4 = 4"
    and d6: "\<forall>i < length [[0, 10, 20 :: real]].
               0 \<le> cell_lower ?r pos4 ! i
             \<and> Suc (nat (cell_lower ?r pos4 ! i)) < length ([[0, 10, 20 :: real]] ! i)
             \<and> [[0, 10, 20 :: real]] ! i ! nat (cell_lower ?r pos4 ! i) \<le> point_at ?r pos4 ! i
             \<and> point_at ?r pos4 ! i \<le> [[0, 10, 20 :: real]] ! i ! Suc (nat (cell_lower ?r pos4 ! i))
             \<and> cell_dist ?r pos4 ! i
                 = (point_at ?r pos4 ! i - [[0, 10, 20 :: real]] ! i ! nat (cell_lower ?r pos4 ! i))
                   / ([[0, 10, 20 :: real]] ! i ! Suc (nat (cell_lower ?r pos4 ! i))
                      - [[0, 10, 20 :: real]] ! i ! nat (cell_lower ?r pos4 ! i))
             \<and> 0 \<le> cell_dist ?r pos4 ! i \<and> cell_dist ?r pos4 ! i \<le> 1"
    and d7: "\<forall>(k, w) \<in> set (weights ?r).
               nd_item ?g (edge_index k (cell_lower ?r pos4)) = Inr (gathered ?r ?g k 4)
             \<and> (\<forall>i < length [[0, 10, 20 :: real]].
                   edge_index k (cell_lower ?r pos4) ! i = cell_lower ?r pos4 ! i + int (k ! i))
             \<and> w ! 4 = (\<Prod>i \<leftarrow> [0..<length [[0, 10, 20 :: real]]].
                          if k ! i = 1 then cell_dist ?r pos4 ! i else 1 - cell_dist ?r pos4 ! i)"
    by blast
  have p4: "pos4 = [4]" using pos[of pos4 4] d4 d5 by simp
  have o4: "out4 = \<lparr>shape = [5], data = [0, 50, 100, 50, 0]\<rparr>" using d0 c1 by simp
  have s4: "(\<Sum>(k, w) \<leftarrow> weights ?r. gathered ?r ?g k 4 * w ! 4) = 0"
    using d1 unfolding o4 by simp
  have e1: "[[0, 10, 20 :: real]] ! 0 ! nat (cell_lower ?r [4] ! 0) \<le> point_at ?r [4] ! 0"
    and e2: "point_at ?r [4] ! 0 \<le> [[0, 10, 20 :: real]] ! 0 ! Suc (nat (cell_lower ?r [4] ! 0))"
    using d6 unfolding p4 by simp_all
  have q0: "nd_item ?g (edge_index [0] (cell_lower ?r [4])) = Inr (gathered ?r ?g [0] 4)"
    and q1: "nd_item ?g (edge_index [1] (cell_lower ?r [4])) = Inr (gathered ?r ?g [1] 4)"
    using d7 unfolding p4 ws by simp_all
  from call_convex_combination[OF init_1d sh t1] obtain outn posn where
    "resampler_call ?r ?h = Inr (out_points ?r, outn)"
    and "data outn ! 1 = (\<Sum>(k, w) \<leftarrow> weights ?r. gathered ?r ?h k 1 * w ! 1)"
    by blast
  then have sn: "(\<Sum>(k, w) \<leftarrow> weights ?r. gathered ?r ?h k 1 * w ! 1) = - 50"
    using c2 by auto
  show ?thesis
    by (intro conjI)
       (fact init_1d sg t1 t4 ok c1 s1 m1 m2 mf rv1 pa1 cl1 cd1 b1 b2 n0 n1 g01 g11
             rv4 pa4 cl4 cd4 e1 e2 q0 q1 g04 g14 s4 c2 sn)+
qed

end
